theory Spec2Isabelle
  imports Main "HOL-Library.AList"
begin

section \<open>Python values: errors, list indexing, integer formatting\<close>

text \<open>
  The three programs are Python scripts.  An exception is a value of type \<open>error\<close>:
  the two failures reported by the input boundary, and the \<open>IndexError\<close> of a list
  access out of range.
\<close>

datatype error = InputError | ValidationError | IndexError

definition ebind :: "error + 'a \<Rightarrow> ('a \<Rightarrow> error + 'b) \<Rightarrow> error + 'b" where
  "ebind m f = (case m of Inl e \<Rightarrow> Inl e | Inr x \<Rightarrow> f x)"

text \<open>\<open>xs[j]\<close>: a negative index counts from the end, anything else out of range raises.\<close>

definition py_get :: "'a list \<Rightarrow> int \<Rightarrow> error + 'a" where
  "py_get xs j =
     (let n = int (length xs); k = (if j < 0 then n + j else j)
      in if 0 \<le> k \<and> k < n then Inr (xs ! nat k) else Inl IndexError)"

text \<open>\<open>xs[j] = v\<close>, with the same index rule.\<close>

definition py_set :: "'a list \<Rightarrow> int \<Rightarrow> 'a \<Rightarrow> error + 'a list" where
  "py_set xs j v =
     (let n = int (length xs); k = (if j < 0 then n + j else j)
      in if 0 \<le> k \<and> k < n then Inr (xs[nat k := v]) else Inl IndexError)"

definition py_get2 :: "'a list list \<Rightarrow> int \<Rightarrow> int \<Rightarrow> error + 'a" where
  "py_get2 dp i w = ebind (py_get dp i) (\<lambda>row. py_get row w)"

definition py_set2 :: "'a list list \<Rightarrow> int \<Rightarrow> int \<Rightarrow> 'a \<Rightarrow> error + 'a list list" where
  "py_set2 dp i w v =
     ebind (py_get dp i) (\<lambda>row. ebind (py_set row w v) (\<lambda>row'. py_set dp i row'))"

text \<open>A \<open>for\<close> loop over a list of indices whose body may raise.\<close>

primrec foldM :: "('a \<Rightarrow> 's \<Rightarrow> error + 's) \<Rightarrow> 'a list \<Rightarrow> 's \<Rightarrow> error + 's" where
  "foldM f [] s = Inr s"
| "foldM f (x # xs) s = ebind (f x s) (foldM f xs)"

text \<open>\<open>str(n)\<close> for a Python integer: decimal digits, a leading minus sign when negative.\<close>

definition digit_char :: "nat \<Rightarrow> char" where
  "digit_char d = char_of (48 + d)"

function str_nat :: "nat \<Rightarrow> string" where
  "str_nat n = (if n < 10 then [digit_char n] else str_nat (n div 10) @ [digit_char (n mod 10)])"
  by pat_completeness auto
termination
  by (relation "measure id") auto

declare str_nat.simps [simp del]

definition str_int :: "int \<Rightarrow> string" where
  "str_int i = (if i < 0 then CHR ''-'' # str_nat (nat (- i)) else str_nat (nat i))"

text \<open>The number that a string of decimal digits denotes.\<close>

definition digits_val :: "string \<Rightarrow> nat" where
  "digits_val ds = foldl (\<lambda>a c. 10 * a + (of_char c - 48)) 0 ds"

section \<open>The graph handed to the renderer\<close>

text \<open>
  \<open>networkx.DiGraph\<close>: a set of nodes with attributes and at most one edge for each
  ordered pair of nodes.  \<open>add_node\<close> sets the node's label; \<open>add_edge\<close> creates
  missing end points and sets the label of the edge between the two nodes, replacing
  the label of an edge that is already there.
\<close>

record 'n graph =
  g_nodes :: "'n set"
  g_label :: "'n \<rightharpoonup> string"
  g_edges :: "('n \<times> 'n) \<rightharpoonup> string"

definition DiGraph :: "'n graph" where
  "DiGraph = \<lparr>g_nodes = {}, g_label = Map.empty, g_edges = Map.empty\<rparr>"

definition add_node :: "'n \<Rightarrow> string \<Rightarrow> 'n graph \<Rightarrow> 'n graph" where
  "add_node n lbl g = g\<lparr>g_nodes := insert n (g_nodes g), g_label := (g_label g)(n \<mapsto> lbl)\<rparr>"

definition add_edge :: "'n \<Rightarrow> 'n \<Rightarrow> string \<Rightarrow> 'n graph \<Rightarrow> 'n graph" where
  "add_edge u v lbl g =
     g\<lparr>g_nodes := insert v (insert u (g_nodes g)), g_edges := (g_edges g)((u, v) \<mapsto> lbl)\<rparr>"

section \<open>01knapsackdp.py: the table and its graph\<close>

text \<open>
  One iteration of the inner loop of \<open>build_knapsack_dp_table\<close>, for row \<open>i\<close> and
  column \<open>w\<close>: copy the cell above, then take the item when it fits and pays more.
\<close>

definition dp_cell :: "int list \<Rightarrow> int list \<Rightarrow> nat \<Rightarrow> nat \<Rightarrow> int list list \<Rightarrow> error + int list list" where
  "dp_cell weight value i w dp =
     ebind (py_get2 dp (int i - 1) (int w)) (\<lambda>skip_val.
     ebind (py_set2 dp (int i) (int w) skip_val) (\<lambda>dp1.
     ebind (py_get weight (int i - 1)) (\<lambda>wt.
       if wt \<le> int w then
         ebind (py_get2 dp1 (int i - 1) (int w - wt)) (\<lambda>a.
         ebind (py_get value (int i - 1)) (\<lambda>vl.
           let pick_val = a + vl in
           ebind (py_get2 dp1 (int i) (int w)) (\<lambda>cur.
             if cur < pick_val then py_set2 dp1 (int i) (int w) pick_val else Inr dp1)))
       else Inr dp1)))"

definition build_knapsack_dp_table :: "int list \<Rightarrow> int list \<Rightarrow> int \<Rightarrow> error + int list list" where
  "build_knapsack_dp_table weight value W =
     (let n = length weight;
          dp = replicate (n + 1) (replicate (nat (W + 1)) (0::int))
      in foldM (\<lambda>i. foldM (dp_cell weight value i) [0..<nat (W + 1)]) [1..<n + 1] dp)"

text \<open>The state of \<open>build_dp_graph\<close>: the graph and the two variables of \<open>get_node_id\<close>.\<close>

record dpg_state =
  dpg_graph :: "nat graph"
  dpg_id_map :: "(nat \<times> nat) \<rightharpoonup> nat"
  dpg_counter :: nat

definition get_node_id :: "nat \<Rightarrow> nat \<Rightarrow> dpg_state \<Rightarrow> nat \<times> dpg_state" where
  "get_node_id i w st =
     (case dpg_id_map st (i, w) of
        None \<Rightarrow> (dpg_counter st,
                 st\<lparr>dpg_id_map := (dpg_id_map st)((i, w) \<mapsto> dpg_counter st),
                    dpg_counter := dpg_counter st + 1\<rparr>)
      | Some k \<Rightarrow> (k, st))"

definition dp_node_label :: "nat \<Rightarrow> nat \<Rightarrow> int \<Rightarrow> string" where
  "dp_node_label i w x = ''dp('' @ str_nat i @ '','' @ str_nat w @ '')='' @ str_int x"

definition dp_skip_label :: "nat \<Rightarrow> string" where
  "dp_skip_label i = ''skip item '' @ str_nat i"

definition dp_pick_label :: "nat \<Rightarrow> string" where
  "dp_pick_label i = ''pick item '' @ str_nat i"

text \<open>Loop 1 of \<open>build_dp_graph\<close>: the node of cell \<open>(i, w)\<close>.\<close>

definition dp_node_step :: "int list list \<Rightarrow> nat \<Rightarrow> nat \<Rightarrow> dpg_state \<Rightarrow> error + dpg_state" where
  "dp_node_step dp i w st =
     ebind (py_get2 dp (int i) (int w)) (\<lambda>x.
       let (nid, st1) = get_node_id i w st
       in Inr (st1\<lparr>dpg_graph := add_node nid (dp_node_label i w x) (dpg_graph st1)\<rparr>))"

text \<open>Loop 2 of \<open>build_dp_graph\<close>: the edges leaving cell \<open>(i, w)\<close>.\<close>

definition dp_edge_step ::
  "int list list \<Rightarrow> int list \<Rightarrow> int list \<Rightarrow> nat \<Rightarrow> nat \<Rightarrow> dpg_state \<Rightarrow> error + dpg_state" where
  "dp_edge_step dp weight value i w st =
     ebind (py_get2 dp (int i) (int w)) (\<lambda>cur_val.
       let (nid_parent, st1) = get_node_id i w st in
       ebind (py_get2 dp (int i + 1) (int w)) (\<lambda>next_val.
       ebind (if next_val = cur_val
              then (let (nid_child, st2) = get_node_id (i + 1) w st1
                    in Inr (st2\<lparr>dpg_graph :=
                              add_edge nid_parent nid_child (dp_skip_label i) (dpg_graph st2)\<rparr>))
              else Inr st1) (\<lambda>st3.
       ebind (py_get weight (int i)) (\<lambda>wt.
         if wt \<le> int w then
           ebind (py_get2 dp (int i) (int w - wt)) (\<lambda>a.
           ebind (py_get value (int i)) (\<lambda>vl.
             let pick_val = a + vl in
             ebind (py_get2 dp (int i + 1) (int w)) (\<lambda>next_val2.
               if next_val2 = pick_val
               then (let (nid_child, st4) = get_node_id (i + 1) w st3
                     in Inr (st4\<lparr>dpg_graph :=
                               add_edge nid_parent nid_child (dp_pick_label i) (dpg_graph st4)\<rparr>))
               else Inr st3)))
         else Inr st3))))"

definition build_dp_graph_state ::
  "int list list \<Rightarrow> int list \<Rightarrow> int list \<Rightarrow> error + dpg_state" where
  "build_dp_graph_state dp weight value =
     ebind (py_get dp 0) (\<lambda>row0.
       let n = int (length dp) - 1;
           W = int (length row0) - 1;
           st0 = \<lparr>dpg_graph = DiGraph, dpg_id_map = Map.empty, dpg_counter = 0\<rparr>
       in ebind (foldM (\<lambda>i. foldM (dp_node_step dp i) [0..<nat (W + 1)]) [0..<nat (n + 1)] st0)
            (foldM (\<lambda>i. foldM (dp_edge_step dp weight value i) [0..<nat (W + 1)]) [0..<nat n]))"

definition build_dp_graph :: "int list list \<Rightarrow> int list \<Rightarrow> int list \<Rightarrow> error + nat graph" where
  "build_dp_graph dp weight value =
     ebind (build_dp_graph_state dp weight value) (\<lambda>st. Inr (dpg_graph st))"

text \<open>Table and graph in sequence, as \<open>main\<close> runs them on validated lists.\<close>

definition knapsack_dp_graph :: "int list \<Rightarrow> int list \<Rightarrow> int \<Rightarrow> error + nat graph" where
  "knapsack_dp_graph weight value W =
     ebind (build_knapsack_dp_table weight value W) (\<lambda>dp. build_dp_graph dp weight value)"

text \<open>The same run, keeping the table and the identifiers given to the cells.\<close>

definition knapsack_dp_run ::
  "int list \<Rightarrow> int list \<Rightarrow> int \<Rightarrow> error + (int list list \<times> dpg_state)" where
  "knapsack_dp_run weight value W =
     ebind (build_knapsack_dp_table weight value W) (\<lambda>dp.
     ebind (build_dp_graph_state dp weight value) (\<lambda>st. Inr (dp, st)))"

text \<open>
  Reading a run: an entry of the table, the node of a cell, the label of the edge
  between two nodes, the set of nodes.
\<close>

definition dp_table_entry :: "int list \<Rightarrow> int list \<Rightarrow> int \<Rightarrow> int \<Rightarrow> int \<Rightarrow> error + int" where
  "dp_table_entry weight value W i w =
     ebind (build_knapsack_dp_table weight value W) (\<lambda>dp. py_get2 dp i w)"

definition dp_cell_node :: "int list \<Rightarrow> int list \<Rightarrow> int \<Rightarrow> nat \<Rightarrow> nat \<Rightarrow> error + nat option" where
  "dp_cell_node weight value W i w =
     ebind (knapsack_dp_run weight value W) (\<lambda>(dp, st). Inr (dpg_id_map st (i, w)))"

definition dp_edge_label :: "int list \<Rightarrow> int list \<Rightarrow> int \<Rightarrow> nat \<Rightarrow> nat \<Rightarrow> error + string option" where
  "dp_edge_label weight value W u v =
     ebind (knapsack_dp_run weight value W) (\<lambda>(dp, st). Inr (g_edges (dpg_graph st) (u, v)))"

definition dp_graph_nodes :: "int list \<Rightarrow> int list \<Rightarrow> int \<Rightarrow> error + nat set" where
  "dp_graph_nodes weight value W =
     ebind (knapsack_dp_run weight value W) (\<lambda>(dp, st). Inr (g_nodes (dpg_graph st)))"

section \<open>The depth-first enumerators\<close>

text \<open>
  Both \<open>dfs\<close> closures share their first steps: the signature's occurrence counter is
  created at 0 when missing and incremented, the identifier is the signature followed by
  \<open>_\<close> and the count, the identifier is appended to the trace, and the edge to the
  parent is recorded when there is a parent.
\<close>

record dfs_state =
  trace :: "string list"
  parent_map :: "(string \<times> (string \<times> string)) list"
  node_counter :: "string \<rightharpoonup> nat"

record ts_state = dfs_state +
  valid_leaves :: "string list"
  ways_count :: nat

definition node_id :: "string \<Rightarrow> nat \<Rightarrow> string" where
  "node_id base_label c = base_label @ ''_'' @ str_nat c"

definition count0 :: "(string \<rightharpoonup> nat) \<Rightarrow> string \<Rightarrow> nat" where
  "count0 m l = (case m l of None \<Rightarrow> 0 | Some k \<Rightarrow> k)"

definition visit ::
  "string \<Rightarrow> string option \<Rightarrow> string \<Rightarrow> 'a dfs_state_scheme \<Rightarrow> string \<times> 'a dfs_state_scheme" where
  "visit base_label parent_id edge_label st =
     (let c = count0 (node_counter st) base_label + 1;
          unique_node_id = node_id base_label c;
          st1 = st\<lparr>node_counter := (node_counter st)(base_label \<mapsto> c),
                   trace := trace st @ [unique_node_id]\<rparr>
      in (unique_node_id,
          case parent_id of
            None \<Rightarrow> st1
          | Some p \<Rightarrow> st1\<lparr>parent_map :=
                            AList.update unique_node_id (p, edge_label) (parent_map st1)\<rparr>))"

subsection \<open>01knapsack.py\<close>

definition kn_label :: "nat \<Rightarrow> int \<Rightarrow> int \<Rightarrow> string" where
  "kn_label i w v = ''dp('' @ str_nat i @ '','' @ str_int w @ '','' @ str_int v @ '')''"

definition kn_skip_label :: "nat \<Rightarrow> string" where
  "kn_skip_label i = ''Skip item '' @ str_nat i"

definition kn_pick_label :: "nat \<Rightarrow> string" where
  "kn_pick_label i = ''Pick item '' @ str_nat i"

function kn_dfs ::
  "int list \<Rightarrow> int list \<Rightarrow> nat \<Rightarrow> int \<Rightarrow> int \<Rightarrow> string option \<Rightarrow> string \<Rightarrow> dfs_state
     \<Rightarrow> error + dfs_state" where
  "kn_dfs weight value i w v parent_id edge_label st =
     (let (unique_node_id, st1) = visit (kn_label i w v) parent_id edge_label st
      in if length weight \<le> i then Inr st1
         else
           (case kn_dfs weight value (i + 1) w v (Some unique_node_id) (kn_skip_label i) st1 of
              Inl e \<Rightarrow> Inl e
            | Inr st2 \<Rightarrow>
                (case py_get weight (int i) of
                   Inl e \<Rightarrow> Inl e
                 | Inr wt \<Rightarrow>
                     if wt \<le> w then
                       (case py_get value (int i) of
                          Inl e \<Rightarrow> Inl e
                        | Inr vl \<Rightarrow>
                            kn_dfs weight value (i + 1) (w - wt) (v + vl)
                              (Some unique_node_id) (kn_pick_label i) st2)
                     else Inr st2)))"
  by pat_completeness auto
termination
  by (relation "measure (\<lambda>(weight, value, i, w, v, p, e, st). length weight - i)") auto

declare kn_dfs.simps [simp del]

definition dfs_init :: dfs_state where
  "dfs_init = \<lparr>trace = [], parent_map = [], node_counter = Map.empty\<rparr>"

definition run_knapsack_dfs :: "int list \<Rightarrow> int list \<Rightarrow> int \<Rightarrow> error + dfs_state" where
  "run_knapsack_dfs weight value W = kn_dfs weight value 0 W 0 None [] dfs_init"

text \<open>\<open>node_id.split("_")[0]\<close>: the text before the first underscore.\<close>

definition display_label :: "string \<Rightarrow> string" where
  "display_label nid = takeWhile (\<lambda>c. c \<noteq> CHR ''_'') nid"

definition graph_of_trace ::
  "string list \<Rightarrow> (string \<times> (string \<times> string)) list \<Rightarrow> string graph" where
  "graph_of_trace tr pm =
     fold (\<lambda>(child_id, (parent_id, edge_label)). add_edge parent_id child_id edge_label) pm
       (fold (\<lambda>nid. add_node nid (display_label nid)) tr DiGraph)"

definition kn_create_tree_graph_from_trace ::
  "string list \<Rightarrow> (string \<times> (string \<times> string)) list \<Rightarrow> string graph" where
  "kn_create_tree_graph_from_trace tr pm = graph_of_trace tr pm"

subsection \<open>FindTargetSumWays.py\<close>

definition ts_label :: "nat \<Rightarrow> int \<Rightarrow> string" where
  "ts_label i cur_sum = ''dfs('' @ str_nat i @ '', '' @ str_int cur_sum @ '')''"

definition ts_goal :: "string \<Rightarrow> ts_state \<Rightarrow> ts_state" where
  "ts_goal unique_node_id st =
     st\<lparr>valid_leaves := valid_leaves st @ [unique_node_id], ways_count := ways_count st + 1\<rparr>"

function ts_dfs ::
  "int list \<Rightarrow> int \<Rightarrow> nat \<Rightarrow> int \<Rightarrow> string option \<Rightarrow> string \<Rightarrow> ts_state \<Rightarrow> error + ts_state" where
  "ts_dfs nums target i cur_sum parent_id edge_label st =
     (let (unique_node_id, st1) = visit (ts_label i cur_sum) parent_id edge_label st
      in if i = length nums
         then (if cur_sum = target then Inr (ts_goal unique_node_id st1) else Inr st1)
         else
           (case py_get nums (int i) of
              Inl e \<Rightarrow> Inl e
            | Inr x \<Rightarrow>
                (case ts_dfs nums target (i + 1) (cur_sum + x)
                        (Some unique_node_id) (''+'' @ str_int x) st1 of
                   Inl e \<Rightarrow> Inl e
                 | Inr st2 \<Rightarrow>
                     ts_dfs nums target (i + 1) (cur_sum - x)
                       (Some unique_node_id) (''-'' @ str_int x) st2)))"
  by pat_completeness auto
termination
  by (relation "measure (\<lambda>(nums, target, i, s, p, e, st). length nums - i)")
     (auto simp: py_get_def Let_def split: if_splits)

declare ts_dfs.simps [simp del]

definition ts_init :: ts_state where
  "ts_init = \<lparr>trace = [], parent_map = [], node_counter = Map.empty,
              valid_leaves = [], ways_count = 0\<rparr>"

definition run_target_sum_dfs :: "int list \<Rightarrow> int \<Rightarrow> error + ts_state" where
  "run_target_sum_dfs nums target = ts_dfs nums target 0 0 None [] ts_init"

text \<open>
  The path highlighter of \<open>create_tree_graph_from_trace\<close>.  \<open>quick_parent\<close> maps a
  child to its parent; \<open>climb\<close> is the \<open>while cur in quick_parent\<close> loop together with
  the statement after it, and returns \<open>None\<close> when the loop runs forever.
\<close>

definition quick_parent :: "(string \<times> (string \<times> string)) list \<Rightarrow> (string \<rightharpoonup> string)" where
  "quick_parent pm = fold (\<lambda>(c, (p, lbl)) qp. qp(c \<mapsto> p)) pm Map.empty"

partial_function (option) climb ::
  "(string \<rightharpoonup> string) \<Rightarrow> string \<Rightarrow> string set \<Rightarrow> string set option" where
  "climb qp cur highlighted_nodes =
     (case qp cur of
        Some p \<Rightarrow> climb qp p (insert cur highlighted_nodes)
      | None \<Rightarrow> Some (insert cur highlighted_nodes))"

primrec highlight_all ::
  "(string \<rightharpoonup> string) \<Rightarrow> string list \<Rightarrow> string set \<Rightarrow> string set option" where
  "highlight_all qp [] highlighted_nodes = Some highlighted_nodes"
| "highlight_all qp (leaf_id # ls) highlighted_nodes =
     (case climb qp leaf_id highlighted_nodes of
        None \<Rightarrow> None
      | Some h \<Rightarrow> highlight_all qp ls h)"

definition ts_create_tree_graph_from_trace ::
  "string list \<Rightarrow> (string \<times> (string \<times> string)) list \<Rightarrow> string list
     \<Rightarrow> (string graph \<times> string set) option" where
  "ts_create_tree_graph_from_trace tr pm leaves =
     (let G = graph_of_trace tr pm
      in case highlight_all (quick_parent pm) leaves {} of
           None \<Rightarrow> None
         | Some highlighted_nodes \<Rightarrow> Some (G, highlighted_nodes))"

section \<open>The input boundary of the three scripts\<close>

text \<open>
  Characters are code points below 256.  \<open>is_space\<close> is the whitespace that
  \<open>str.strip()\<close> removes in that range, \<open>split_on\<close> is \<open>str.split(sep)\<close> for a
  separator of one character, and \<open>py_int\<close> is \<open>int(s)\<close> on a text: surrounding
  whitespace, an optional sign, then decimal digits in groups separated by single
  underscores; anything else raises, which the scripts report as an input error.
\<close>

definition is_space :: "char \<Rightarrow> bool" where
  "is_space c \<longleftrightarrow> (of_char c :: nat) \<in> {9, 10, 11, 12, 13, 28, 29, 30, 31, 32, 133, 160}"

definition strip :: "string \<Rightarrow> string" where
  "strip s = rev (dropWhile is_space (rev (dropWhile is_space s)))"

primrec split_on :: "char \<Rightarrow> string \<Rightarrow> string list" where
  "split_on sep [] = [[]]"
| "split_on sep (x # xs) =
     (if x = sep then [] # split_on sep xs
      else (case split_on sep xs of
              [] \<Rightarrow> [[x]]
            | t # ts \<Rightarrow> (x # t) # ts))"

definition is_digit :: "char \<Rightarrow> bool" where
  "is_digit c \<longleftrightarrow> 48 \<le> (of_char c :: nat) \<and> (of_char c :: nat) \<le> 57"

definition valid_digits :: "string \<Rightarrow> bool" where
  "valid_digits body =
     list_all (\<lambda>g. g \<noteq> [] \<and> list_all is_digit g) (split_on (CHR ''_'') body)"

definition py_int :: "string \<Rightarrow> error + int" where
  "py_int s =
     (let t = strip s;
          (neg, body) =
            (case t of
               [] \<Rightarrow> (False, t)
             | c # r \<Rightarrow> if c = CHR ''-'' then (True, r)
                        else if c = CHR ''+'' then (False, r)
                        else (False, t))
      in if valid_digits body
         then Inr ((if neg then - 1 else 1)
                     * int (digits_val (filter (\<lambda>c. c \<noteq> CHR ''_'') body)))
         else Inl InputError)"

primrec mapM :: "('a \<Rightarrow> error + 'b) \<Rightarrow> 'a list \<Rightarrow> error + 'b list" where
  "mapM f [] = Inr []"
| "mapM f (x # xs) = ebind (f x) (\<lambda>y. ebind (mapM f xs) (\<lambda>ys. Inr (y # ys)))"

text \<open>The tokens that the list comprehension keeps: \<open>x.strip()\<close> is not empty.\<close>

definition tokens :: "string \<Rightarrow> string list" where
  "tokens s = filter (\<lambda>x. strip x \<noteq> []) (split_on (CHR '','') s)"

text \<open>\<open>[int(x.strip()) for x in s.split(",") if x.strip()]\<close> inside \<open>try\<close>.\<close>

definition parse_int_list :: "string \<Rightarrow> error + int list" where
  "parse_int_list s = mapM (\<lambda>x. py_int (strip x)) (tokens s)"

text \<open>
  The button handlers up to the graph that they hand to the renderer.  Both lists of
  Knapsack are parsed in one \<open>try\<close>; then the lengths are compared; then the
  enumeration runs.
\<close>

definition knapsack_app :: "string \<Rightarrow> string \<Rightarrow> int \<Rightarrow> error + string graph" where
  "knapsack_app weight_str value_str W =
     ebind (parse_int_list weight_str) (\<lambda>weight_list.
     ebind (parse_int_list value_str) (\<lambda>value_list.
       if length weight_list \<noteq> length value_list then Inl ValidationError
       else ebind (run_knapsack_dfs weight_list value_list W) (\<lambda>r.
              Inr (kn_create_tree_graph_from_trace (trace r) (parent_map r)))))"

definition knapsack_dp_main :: "string \<Rightarrow> string \<Rightarrow> int \<Rightarrow> error + nat graph" where
  "knapsack_dp_main weight_str value_str W =
     ebind (parse_int_list weight_str) (\<lambda>weight_list.
     ebind (parse_int_list value_str) (\<lambda>value_list.
       if length weight_list \<noteq> length value_list then Inl ValidationError
       else ebind (build_knapsack_dp_table weight_list value_list W) (\<lambda>dp.
              build_dp_graph dp weight_list value_list)))"

text \<open>
  The Target Sum handler; the inner \<open>None\<close> stands for a highlighter that does not
  return.
\<close>

definition target_sum_app ::
  "string \<Rightarrow> int \<Rightarrow> error + (string graph \<times> string set \<times> nat) option" where
  "target_sum_app nums_str target =
     ebind (parse_int_list nums_str) (\<lambda>nums_list.
     ebind (run_target_sum_dfs nums_list target) (\<lambda>r.
       Inr (map_option (\<lambda>(G, highlighted_nodes). (G, highlighted_nodes, ways_count r))
              (ts_create_tree_graph_from_trace (trace r) (parent_map r) (valid_leaves r)))))"

section \<open>The recursion trees, as values\<close>

text \<open>
  The tree of calls that an enumeration unfolds: a node carries the state's signature,
  a terminal node also whether it is a goal, an inner node the labels of the edges to
  its children.  \<open>walk\<close> visits such a tree the way both \<open>dfs\<close> closures visit their
  calls; \<open>on_goal\<close> is what a goal leaf does to the state.
\<close>

datatype vtree =
  Leaf string bool
| Node1 string string vtree
| Node2 string string vtree string vtree

fun walk ::
  "(string \<Rightarrow> 'a dfs_state_scheme \<Rightarrow> 'a dfs_state_scheme) \<Rightarrow> vtree \<Rightarrow> string option \<Rightarrow> string
     \<Rightarrow> 'a dfs_state_scheme \<Rightarrow> 'a dfs_state_scheme" where
  "walk on_goal (Leaf l g) p e st =
     (case visit l p e st of (uid, st1) \<Rightarrow> if g then on_goal uid st1 else st1)"
| "walk on_goal (Node1 l e1 t1) p e st =
     (case visit l p e st of (uid, st1) \<Rightarrow> walk on_goal t1 (Some uid) e1 st1)"
| "walk on_goal (Node2 l e1 t1 e2 t2) p e st =
     (case visit l p e st of (uid, st1) \<Rightarrow>
        walk on_goal t2 (Some uid) e2 (walk on_goal t1 (Some uid) e1 st1))"

fun labels :: "vtree \<Rightarrow> string list" where
  "labels (Leaf l g) = [l]"
| "labels (Node1 l e1 t1) = l # labels t1"
| "labels (Node2 l e1 t1 e2 t2) = l # labels t1 @ labels t2"

fun edge_labels :: "vtree \<Rightarrow> string list" where
  "edge_labels (Leaf l g) = []"
| "edge_labels (Node1 l e1 t1) = e1 # edge_labels t1"
| "edge_labels (Node2 l e1 t1 e2 t2) = e1 # edge_labels t1 @ e2 # edge_labels t2"

fun goal_count :: "vtree \<Rightarrow> nat" where
  "goal_count (Leaf l g) = (if g then 1 else 0)"
| "goal_count (Node1 l e1 t1) = goal_count t1"
| "goal_count (Node2 l e1 t1 e2 t2) = goal_count t1 + goal_count t2"

text \<open>Numbering a sequence of signatures by occurrence, from given counts.\<close>

primrec assign_ids :: "(string \<rightharpoonup> nat) \<Rightarrow> string list \<Rightarrow> string list" where
  "assign_ids m [] = []"
| "assign_ids m (l # ls) =
     node_id l (count0 m l + 1) # assign_ids (m(l \<mapsto> count0 m l + 1)) ls"

primrec bump_all :: "(string \<rightharpoonup> nat) \<Rightarrow> string list \<Rightarrow> (string \<rightharpoonup> nat)" where
  "bump_all m [] = m"
| "bump_all m (l # ls) = bump_all (m(l \<mapsto> count0 m l + 1)) ls"

function kn_tree :: "int list \<Rightarrow> int list \<Rightarrow> nat \<Rightarrow> int \<Rightarrow> int \<Rightarrow> vtree" where
  "kn_tree weight value i w v =
     (if length weight \<le> i then Leaf (kn_label i w v) False
      else if weight ! i \<le> w
      then Node2 (kn_label i w v)
             (kn_skip_label i) (kn_tree weight value (i + 1) w v)
             (kn_pick_label i) (kn_tree weight value (i + 1) (w - weight ! i) (v + value ! i))
      else Node1 (kn_label i w v) (kn_skip_label i) (kn_tree weight value (i + 1) w v))"
  by pat_completeness auto
termination
  by (relation "measure (\<lambda>(weight, value, i, w, v). length weight - i)") auto

declare kn_tree.simps [simp del]

function ts_tree :: "int list \<Rightarrow> int \<Rightarrow> nat \<Rightarrow> int \<Rightarrow> vtree" where
  "ts_tree nums target i cur_sum =
     (if length nums \<le> i then Leaf (ts_label i cur_sum) (cur_sum = target)
      else Node2 (ts_label i cur_sum)
             (''+'' @ str_int (nums ! i)) (ts_tree nums target (i + 1) (cur_sum + nums ! i))
             (''-'' @ str_int (nums ! i)) (ts_tree nums target (i + 1) (cur_sum - nums ! i)))"
  by pat_completeness auto
termination
  by (relation "measure (\<lambda>(nums, target, i, s). length nums - i)") auto

declare ts_tree.simps [simp del]

text \<open>The goal flags of a tree in visiting order; an inner node is no goal.\<close>

fun goals :: "vtree \<Rightarrow> bool list" where
  "goals (Leaf l g) = [g]"
| "goals (Node1 l e1 t1) = False # goals t1"
| "goals (Node2 l e1 t1 e2 t2) = False # goals t1 @ goals t2"

text \<open>The identifiers that the goal leaves of a tree receive, from given counts.\<close>

definition goal_ids :: "(string \<rightharpoonup> nat) \<Rightarrow> vtree \<Rightarrow> string list" where
  "goal_ids m t = map fst (filter snd (zip (assign_ids m (labels t)) (goals t)))"

section \<open>What the specification says, as definitions\<close>

text \<open>
  The visiting order of the specification.  Knapsack: the state, then everything below
  the skip child, then everything below the pick child, which exists only when the
  remaining capacity admits the item; past the last item, the state alone.
\<close>

function kn_preorder :: "int list \<Rightarrow> int list \<Rightarrow> nat \<Rightarrow> int \<Rightarrow> int \<Rightarrow> (nat \<times> int \<times> int) list" where
  "kn_preorder weight value i w v =
     (if length weight \<le> i then [(i, w, v)]
      else (i, w, v) # kn_preorder weight value (i + 1) w v
             @ (if weight ! i \<le> w
                then kn_preorder weight value (i + 1) (w - weight ! i) (v + value ! i)
                else []))"
  by pat_completeness auto
termination
  by (relation "measure (\<lambda>(weight, value, i, w, v). length weight - i)") auto

declare kn_preorder.simps [simp del]

text \<open>
  Target Sum: the state, then everything below the \<open>+\<close> child, then everything below
  the \<open>-\<close> child; past the last element, the state alone.
\<close>

function ts_preorder :: "int list \<Rightarrow> nat \<Rightarrow> int \<Rightarrow> (nat \<times> int) list" where
  "ts_preorder nums i cur_sum =
     (if length nums \<le> i then [(i, cur_sum)]
      else (i, cur_sum) # ts_preorder nums (i + 1) (cur_sum + nums ! i)
             @ ts_preorder nums (i + 1) (cur_sum - nums ! i))"
  by pat_completeness auto
termination
  by (relation "measure (\<lambda>(nums, i, s). length nums - i)") auto

declare ts_preorder.simps [simp del]

text \<open>The number of sign assignments over \<open>nums\<close> whose signed sum is the target.\<close>

definition sign_ways :: "int list \<Rightarrow> int \<Rightarrow> nat" where
  "sign_ways nums target =
     card {s. length s = length nums \<and> set s \<subseteq> {1, - 1}
            \<and> sum_list (map2 (*) s nums) = target}"

text \<open>
  Paths of a graph: \<open>edge_rel\<close> is the set of its edges, and a node lies on a path from
  \<open>root\<close> to \<open>leaf\<close> when the root reaches it and it reaches the leaf.
\<close>

definition edge_rel :: "'n graph \<Rightarrow> ('n \<times> 'n) set" where
  "edge_rel G = {(u, v). g_edges G (u, v) \<noteq> None}"

definition on_path :: "'n graph \<Rightarrow> 'n \<Rightarrow> 'n \<Rightarrow> 'n \<Rightarrow> bool" where
  "on_path G root leaf x \<longleftrightarrow> (root, x) \<in> (edge_rel G)\<^sup>* \<and> (x, leaf) \<in> (edge_rel G)\<^sup>*"

text \<open>
  The sign assignments over a list \<open>xs\<close> that bring the sum from \<open>s\<close> to the target.
\<close>

definition sign_sets :: "int \<Rightarrow> int list \<Rightarrow> int \<Rightarrow> int list set" where
  "sign_sets target xs s =
     {sg. length sg = length xs \<and> set sg \<subseteq> {1, - 1} \<and> s + sum_list (map2 (*) sg xs) = target}"

text \<open>The edges that a child-to-parent map describes, from parent to child.\<close>

definition parent_rel :: "(string \<rightharpoonup> string) \<Rightarrow> (string \<times> string) set" where
  "parent_rel qp = {(p, c). qp c = Some p}"

text \<open>
  The table of the specification: \<open>T[0][w] = 0\<close>, and \<open>T[i][w]\<close> is \<open>T[i-1][w]\<close> when
  \<open>w < weight[i-1]\<close>, else the larger of \<open>T[i-1][w]\<close> and
  \<open>T[i-1][w - weight[i-1]] + value[i-1]\<close>.
\<close>

fun knap_T :: "int list \<Rightarrow> int list \<Rightarrow> nat \<Rightarrow> nat \<Rightarrow> int" where
  "knap_T weight value 0 w = 0"
| "knap_T weight value (Suc i) w =
     (if int w < weight ! i then knap_T weight value i w
      else max (knap_T weight value i w)
               (knap_T weight value i (nat (int w - weight ! i)) + value ! i))"

text \<open>
  The optimum by brute force: the largest total value of a set of items, taken among
  the items \<open>A\<close>, whose total weight is at most the capacity.
\<close>

definition feasible :: "int list \<Rightarrow> nat set \<Rightarrow> int \<Rightarrow> nat set set" where
  "feasible weight A c = {S. S \<subseteq> A \<and> (\<Sum>j\<in>S. weight ! j) \<le> c}"

definition best :: "int list \<Rightarrow> int list \<Rightarrow> nat set \<Rightarrow> int \<Rightarrow> int" where
  "best weight value A c = Max ((\<lambda>S. \<Sum>j\<in>S. value ! j) ` feasible weight A c)"

definition knapsack_opt :: "int list \<Rightarrow> int list \<Rightarrow> int \<Rightarrow> int" where
  "knapsack_opt weight value W = best weight value {..<length weight} W"

text \<open>The accumulated values of the terminal states that the depth-first run reaches.\<close>

definition leaf_values :: "int list \<Rightarrow> int list \<Rightarrow> nat \<Rightarrow> int \<Rightarrow> int \<Rightarrow> int list" where
  "leaf_values weight value i w v =
     map (\<lambda>(i, w, v). v)
       (filter (\<lambda>(i, w, v). length weight \<le> i) (kn_preorder weight value i w v))"

section \<open>Invariants and loop summaries used in the proofs\<close>

text \<open>
  Every identifier of the trace is a signature without underscore followed by a count
  that the signature's counter has reached.
\<close>

definition ids_ok :: "'a dfs_state_scheme \<Rightarrow> bool" where
  "ids_ok st \<longleftrightarrow>
     (\<forall>x\<in>set (trace st). \<exists>l k. x = node_id l k \<and> CHR ''_'' \<notin> set l
         \<and> k \<le> count0 (node_counter st) l)"

text \<open>
  The trace has no repetition, the parent map has one entry for each node but the first,
  and the parent of a node stands before it in the trace.
\<close>

definition parents_ok :: "'a dfs_state_scheme \<Rightarrow> bool" where
  "parents_ok st \<longleftrightarrow>
     distinct (trace st) \<and> distinct (map fst (parent_map st))
     \<and> fst ` set (parent_map st) \<subseteq> set (trace st)
     \<and> (\<forall>j<length (trace st).
           case map_of (parent_map st) (trace st ! j) of
             None \<Rightarrow> j = 0
           | Some (p, l) \<Rightarrow> \<exists>k<j. p = trace st ! k)"

definition parent_ok :: "string option \<Rightarrow> 'a dfs_state_scheme \<Rightarrow> bool" where
  "parent_ok p st \<longleftrightarrow> (case p of None \<Rightarrow> trace st = [] | Some q \<Rightarrow> q \<in> set (trace st))"

text \<open>What one pass of the inner table loop leaves in column \<open>w\<close>, from the row above.\<close>

definition cell_of :: "int list \<Rightarrow> int list \<Rightarrow> nat \<Rightarrow> int list \<Rightarrow> nat \<Rightarrow> int" where
  "cell_of weight value i row w =
     (if weight ! i \<le> int w \<and> row ! w < row ! nat (int w - weight ! i) + value ! i
      then row ! nat (int w - weight ! i) + value ! i
      else row ! w)"

text \<open>
  Every edge of a table graph is labelled as a skip, or as the pick of an item that fits
  in some column of the table.
\<close>

definition edge_labels_ok :: "int list \<Rightarrow> nat \<Rightarrow> nat graph \<Rightarrow> bool" where
  "edge_labels_ok weight C G \<longleftrightarrow>
     (\<forall>k l. g_edges G k = Some l \<longrightarrow>
        (\<exists>i. l = dp_skip_label i)
        \<or> (\<exists>i w. i < length weight \<and> w < C \<and> weight ! i \<le> int w \<and> l = dp_pick_label i))"

section \<open>Verified properties\<close>

subsection \<open>Identifiers\<close>


lemma of_char_digit: "d < 10 \<Longrightarrow> of_char (digit_char d) = 48 + d"
  by (simp add: digit_char_def)

lemma digit_char_not_us: "d < 10 \<Longrightarrow> digit_char d \<noteq> CHR ''_''"
proof
  assume d: "d < 10" and e: "digit_char d = CHR ''_''"
  have "(of_char (digit_char d) :: nat) = 48 + d" using d by (rule of_char_digit)
  with e d show False by simp
qed

lemma str_nat_no_us: "CHR ''_'' \<notin> set (str_nat n)"
proof (induction n rule: str_nat.induct)
  case (1 n)
  show ?case
  proof (cases "n < 10")
    case True
    then show ?thesis using digit_char_not_us [of n] by (subst str_nat.simps) auto
  next
    case False
    then have "CHR ''_'' \<notin> set (str_nat (n div 10))" using 1 by simp
    moreover have "digit_char (n mod 10) \<noteq> CHR ''_''" by (rule digit_char_not_us) simp
    ultimately show ?thesis using False by (subst str_nat.simps) auto
  qed
qed

lemma digits_val_snoc: "digits_val (ds @ [c]) = 10 * digits_val ds + (of_char c - 48)"
  by (simp add: digits_val_def)

lemma digits_val_str_nat: "digits_val (str_nat n) = n"
proof (induction n rule: str_nat.induct)
  case (1 n)
  show ?case
  proof (cases "n < 10")
    case True
    then have "str_nat n = [digit_char n]" by (subst str_nat.simps) simp
    then show ?thesis using True by (simp add: digits_val_def of_char_digit)
  next
    case False
    then have s: "str_nat n = str_nat (n div 10) @ [digit_char (n mod 10)]"
      by (subst str_nat.simps) simp
    have "digits_val (str_nat (n div 10)) = n div 10" using 1 False by simp
    then show ?thesis by (simp add: s digits_val_snoc of_char_digit)
  qed
qed

lemma str_nat_inject: "str_nat a = str_nat b \<longleftrightarrow> a = b"
  by (metis digits_val_str_nat)

lemma display_label_node_id:
  "CHR ''_'' \<notin> set l \<Longrightarrow> display_label (node_id l k) = l"
  by (auto simp add: display_label_def node_id_def takeWhile_tail)

lemma node_id_inject:
  assumes "CHR ''_'' \<notin> set l" "CHR ''_'' \<notin> set l'"
  shows "node_id l k = node_id l' k' \<longleftrightarrow> l = l' \<and> k = k'"
proof
  assume e: "node_id l k = node_id l' k'"
  have "display_label (node_id l k) = display_label (node_id l' k')" using e by simp
  then have ll: "l = l'" using assms by (simp add: display_label_node_id)
  with e have "str_nat k = str_nat k'" by (simp add: node_id_def)
  then show "l = l' \<and> k = k'" using ll by (simp add: str_nat_inject)
qed simp

subsection \<open>One visit\<close>

lemma count0_upd: "count0 (m(l \<mapsto> c)) l' = (if l' = l then c else count0 m l')"
  by (simp add: count0_def)

lemma visit_fst: "fst (visit l p e st) = node_id l (count0 (node_counter st) l + 1)"
  by (simp add: visit_def Let_def)

lemma visit_trace: "trace (snd (visit l p e st)) = trace st @ [fst (visit l p e st)]"
  by (simp add: visit_def Let_def split: option.splits)

lemma visit_counter:
  "node_counter (snd (visit l p e st)) = (node_counter st)(l \<mapsto> count0 (node_counter st) l + 1)"
  by (simp add: visit_def Let_def split: option.splits)

lemma visit_parent_map:
  "parent_map (snd (visit l p e st)) =
     (case p of None \<Rightarrow> parent_map st
      | Some q \<Rightarrow> AList.update (fst (visit l p e st)) (q, e) (parent_map st))"
  by (simp add: visit_def Let_def split: option.splits)

lemma visit_more: "dfs_state.more (snd (visit l p e st)) = dfs_state.more st"
  by (simp add: visit_def Let_def split: option.splits)

lemma visit_fresh:
  assumes "ids_ok st" "CHR ''_'' \<notin> set l"
  shows "fst (visit l p e st) \<notin> set (trace st)"
proof
  assume "fst (visit l p e st) \<in> set (trace st)"
  then obtain l' k where x: "fst (visit l p e st) = node_id l' k" "CHR ''_'' \<notin> set l'"
    "k \<le> count0 (node_counter st) l'"
    using assms(1) unfolding ids_ok_def by blast
  from x(1) have "node_id l (count0 (node_counter st) l + 1) = node_id l' k"
    by (simp add: visit_fst)
  then have "l = l' \<and> count0 (node_counter st) l + 1 = k"
    using assms(2) x(2) by (auto simp add: node_id_inject)
  with x(3) show False by auto
qed

lemma visit_ids_ok:
  assumes "ids_ok st" "CHR ''_'' \<notin> set l"
  shows "ids_ok (snd (visit l p e st))"
  unfolding ids_ok_def
proof
  fix x assume "x \<in> set (trace (snd (visit l p e st)))"
  then consider "x \<in> set (trace st)" | "x = fst (visit l p e st)"
    by (auto simp: visit_trace)
  then show "\<exists>l' k. x = node_id l' k \<and> CHR ''_'' \<notin> set l'
      \<and> k \<le> count0 (node_counter (snd (visit l p e st))) l'"
  proof cases
    case 1
    then obtain l' k where x: "x = node_id l' k" "CHR ''_'' \<notin> set l'"
      "k \<le> count0 (node_counter st) l'"
      using assms(1) unfolding ids_ok_def by blast
    then have "k \<le> count0 (node_counter (snd (visit l p e st))) l'"
      by (auto simp add: visit_counter count0_upd)
    with x show ?thesis by blast
  next
    case 2
    then have "x = node_id l (count0 (node_counter st) l + 1)" by (simp add: visit_fst)
    moreover have "count0 (node_counter st) l + 1 \<le> count0 (node_counter (snd (visit l p e st))) l"
      by (simp add: visit_counter count0_upd)
    ultimately show ?thesis using assms(2) by blast
  qed
qed

lemma visit_parents_ok:
  assumes i: "ids_ok st" and po: "parents_ok st" and l: "CHR ''_'' \<notin> set l"
    and p: "parent_ok p st"
  shows "parents_ok (snd (visit l p e st))"
proof -
  define uid where "uid = fst (visit l p e st)"
  define st1 where "st1 = snd (visit l p e st)"
  have fresh: "uid \<notin> set (trace st)" unfolding uid_def using i l by (rule visit_fresh)
  have tr: "trace st1 = trace st @ [uid]" by (simp add: st1_def uid_def visit_trace)
  have pm: "parent_map st1 =
      (case p of None \<Rightarrow> parent_map st | Some q \<Rightarrow> AList.update uid (q, e) (parent_map st))"
    unfolding st1_def uid_def by (rule visit_parent_map)
  have mo: "map_of (parent_map st1) =
      (case p of None \<Rightarrow> map_of (parent_map st) | Some q \<Rightarrow> (map_of (parent_map st))(uid \<mapsto> (q, e)))"
    by (simp add: pm update_conv' split: option.splits)
  have d1: "distinct (trace st1)" using po fresh by (simp add: tr parents_ok_def)
  have d2: "distinct (map fst (parent_map st1))"
    using po by (simp add: pm parents_ok_def distinct_update split: option.splits)
  have d3: "fst ` set (parent_map st1) \<subseteq> set (trace st1)"
    using po by (auto simp: pm tr parents_ok_def dom_update split: option.splits)
  have nokey: "map_of (parent_map st) uid = None"
  proof -
    have "uid \<notin> fst ` set (parent_map st)" using po fresh by (auto simp: parents_ok_def)
    then show ?thesis by (simp add: map_of_eq_None_iff)
  qed
  have d4: "case map_of (parent_map st1) (trace st1 ! j) of
             None \<Rightarrow> j = 0
           | Some (p, l) \<Rightarrow> \<exists>k<j. p = trace st1 ! k" if j: "j < length (trace st1)" for j
  proof (cases "j < length (trace st)")
    case True
    then have e1: "trace st1 ! j = trace st ! j" by (simp add: tr nth_append)
    have "trace st ! j \<noteq> uid" using True fresh by (metis nth_mem)
    then have e2: "map_of (parent_map st1) (trace st ! j) = map_of (parent_map st) (trace st ! j)"
      by (simp add: mo split: option.splits)
    have old: "case map_of (parent_map st) (trace st ! j) of
             None \<Rightarrow> j = 0
           | Some (p, l) \<Rightarrow> \<exists>k<j. p = trace st ! k"
      using po True by (simp add: parents_ok_def)
    show ?thesis
    proof (cases "map_of (parent_map st) (trace st ! j)")
      case None
      then have "map_of (parent_map st1) (trace st1 ! j) = None" by (simp add: e1 e2)
      moreover have "j = 0" using old None by simp
      ultimately show ?thesis by simp
    next
      case (Some a)
      obtain q l' where a: "a = (q, l')" by (cases a)
      from old Some a obtain k where k: "k < j" "q = trace st ! k" by auto
      then have "q = trace st1 ! k" using True by (simp add: tr nth_append)
      then show ?thesis using Some a k(1) by (auto simp: e1 e2)
    qed
  next
    case False
    then have jl: "j = length (trace st)" using j by (simp add: tr)
    then have e1: "trace st1 ! j = uid" by (simp add: tr)
    show ?thesis
    proof (cases p)
      case None
      then have "trace st = []" using p by (simp add: parent_ok_def)
      then have "j = 0" using jl by simp
      moreover have "map_of (parent_map st1) (trace st1 ! j) = None"
        using None nokey by (simp add: e1 mo)
      ultimately show ?thesis by simp
    next
      case (Some q)
      then have "q \<in> set (trace st)" using p by (simp add: parent_ok_def)
      then obtain k where k: "k < length (trace st)" "trace st ! k = q"
        by (auto simp: in_set_conv_nth)
      then have "q = trace st1 ! k" by (simp add: tr nth_append)
      moreover have "map_of (parent_map st1) (trace st1 ! j) = Some (q, e)"
        using Some by (simp add: e1 mo)
      ultimately show ?thesis using k(1) jl by auto
    qed
  qed
  show ?thesis
    unfolding parents_ok_def st1_def [symmetric] using d1 d2 d3 d4 by blast
qed

subsection \<open>A whole traversal\<close>

lemma assign_ids_append:
  "assign_ids m (xs @ ys) = assign_ids m xs @ assign_ids (bump_all m xs) ys"
  by (induction xs arbitrary: m) simp_all

lemma bump_all_append: "bump_all m (xs @ ys) = bump_all (bump_all m xs) ys"
  by (induction xs arbitrary: m) simp_all

lemma walk_Leaf:
  "walk h (Leaf l g) p e st =
     (if g then h (fst (visit l p e st)) (snd (visit l p e st)) else snd (visit l p e st))"
  by (simp add: case_prod_beta)

lemma walk_Node1:
  "walk h (Node1 l e1 t1) p e st = walk h t1 (Some (fst (visit l p e st))) e1 (snd (visit l p e st))"
  by (simp add: case_prod_beta)

lemma walk_Node2:
  "walk h (Node2 l e1 t1 e2 t2) p e st =
     walk h t2 (Some (fst (visit l p e st))) e2
       (walk h t1 (Some (fst (visit l p e st))) e1 (snd (visit l p e st)))"
  by (simp add: case_prod_beta)

lemma visit_trace_counter:
  "trace (snd (visit l p e st)) = trace st @ assign_ids (node_counter st) [l]"
  "node_counter (snd (visit l p e st)) = bump_all (node_counter st) [l]"
  by (simp_all add: visit_trace visit_counter visit_fst)

lemma walk_trace_counter:
  fixes st :: "'a dfs_state_scheme"
  assumes h: "\<And>u (s :: 'a dfs_state_scheme). trace (h u s) = trace s \<and> node_counter (h u s) = node_counter s"
  shows "trace (walk h t p e st) = trace st @ assign_ids (node_counter st) (labels t)
       \<and> node_counter (walk h t p e st) = bump_all (node_counter st) (labels t)"
proof (induction t arbitrary: p e st)
  case (Leaf l g)
  show ?case using h by (simp only: walk_Leaf labels.simps visit_trace_counter split: if_splits) simp
next
  case (Node1 l e1 t1)
  have "labels (Node1 l e1 t1) = [l] @ labels t1" by simp
  then show ?case
    by (simp only: walk_Node1 Node1.IH visit_trace_counter assign_ids_append bump_all_append
        append_assoc)
next
  case (Node2 l e1 t1 e2 t2)
  have "labels (Node2 l e1 t1 e2 t2) = [l] @ labels t1 @ labels t2" by simp
  then show ?case
    by (simp only: walk_Node2 Node2.IH visit_trace_counter assign_ids_append bump_all_append
        append_assoc)
qed

lemma ids_ok_cong:
  "trace s = trace s' \<Longrightarrow> node_counter s = node_counter s' \<Longrightarrow> ids_ok s = ids_ok s'"
  by (simp add: ids_ok_def)

lemma parents_ok_cong:
  "trace s = trace s' \<Longrightarrow> parent_map s = parent_map s' \<Longrightarrow> parents_ok s = parents_ok s'"
  by (simp add: parents_ok_def cong: option.case_cong)

lemma parent_ok_fresh:
  "parent_ok (Some (fst (visit l p e st))) (snd (visit l p e st))"
  by (simp add: parent_ok_def visit_trace)

lemma parent_ok_mono:
  "parent_ok (Some q) s \<Longrightarrow> set (trace s) \<subseteq> set (trace s') \<Longrightarrow> parent_ok (Some q) s'"
  by (auto simp: parent_ok_def)

lemma walk_invariant:
  fixes st :: "'a dfs_state_scheme"
  assumes h: "\<And>u (s :: 'a dfs_state_scheme). trace (h u s) = trace s
      \<and> node_counter (h u s) = node_counter s \<and> parent_map (h u s) = parent_map s"
  shows "ids_ok st \<Longrightarrow> parents_ok st \<Longrightarrow> parent_ok p st
      \<Longrightarrow> (\<And>l. l \<in> set (labels t) \<Longrightarrow> CHR ''_'' \<notin> set l)
      \<Longrightarrow> ids_ok (walk h t p e st) \<and> parents_ok (walk h t p e st)"
proof (induction t arbitrary: p e st)
  case (Leaf l g)
  have l: "CHR ''_'' \<notin> set l" using Leaf.prems(4) [of l] by simp
  have a: "ids_ok (snd (visit l p e st))" using Leaf.prems(1) l by (rule visit_ids_ok)
  have b: "parents_ok (snd (visit l p e st))"
    using Leaf.prems(1,2) l Leaf.prems(3) by (rule visit_parents_ok)
  have "ids_ok (h u (snd (visit l p e st))) = ids_ok (snd (visit l p e st))" for u
    by (rule ids_ok_cong) (simp_all add: h)
  moreover have "parents_ok (h u (snd (visit l p e st))) = parents_ok (snd (visit l p e st))" for u
    by (rule parents_ok_cong) (simp_all add: h)
  ultimately show ?case using a b by (simp only: walk_Leaf split: if_splits) simp
next
  case (Node1 l e1 t1)
  have l: "CHR ''_'' \<notin> set l" using Node1.prems(4) [of l] by simp
  have a: "ids_ok (snd (visit l p e st))" using Node1.prems(1) l by (rule visit_ids_ok)
  have b: "parents_ok (snd (visit l p e st))"
    using Node1.prems(1,2) l Node1.prems(3) by (rule visit_parents_ok)
  have c: "\<And>l'. l' \<in> set (labels t1) \<Longrightarrow> CHR ''_'' \<notin> set l'"
    using Node1.prems(4) by simp
  show ?case
    unfolding walk_Node1 using a b parent_ok_fresh c by (rule Node1.IH)
next
  case (Node2 l e1 t1 e2 t2)
  let ?u = "fst (visit l p e st)"
  let ?st1 = "snd (visit l p e st)"
  let ?st2 = "walk h t1 (Some ?u) e1 ?st1"
  have l: "CHR ''_'' \<notin> set l" using Node2.prems(4) [of l] by simp
  have a: "ids_ok ?st1" using Node2.prems(1) l by (rule visit_ids_ok)
  have b: "parents_ok ?st1"
    using Node2.prems(1,2) l Node2.prems(3) by (rule visit_parents_ok)
  have c1: "\<And>l'. l' \<in> set (labels t1) \<Longrightarrow> CHR ''_'' \<notin> set l'"
    using Node2.prems(4) by simp
  have c2: "\<And>l'. l' \<in> set (labels t2) \<Longrightarrow> CHR ''_'' \<notin> set l'"
    using Node2.prems(4) by simp
  have d: "ids_ok ?st2 \<and> parents_ok ?st2"
    using a b parent_ok_fresh c1 by (rule Node2.IH(1))
  have "trace ?st2 = trace ?st1 @ assign_ids (node_counter ?st1) (labels t1)"
    using walk_trace_counter [of h t1 "Some ?u" e1 ?st1] h by simp
  then have "set (trace ?st1) \<subseteq> set (trace ?st2)" by simp
  with parent_ok_fresh have f: "parent_ok (Some ?u) ?st2" by (rule parent_ok_mono)
  show ?case
    unfolding walk_Node2 using d [THEN conjunct1] d [THEN conjunct2] f c2 by (rule Node2.IH(2))
qed

subsection \<open>The closures follow their trees\<close>

lemma kn_dfs_walk:
  "length weight \<le> length value \<Longrightarrow>
   kn_dfs weight value i w v p e st = Inr (walk (\<lambda>u s. s) (kn_tree weight value i w v) p e st)"
proof (induction weight "value" i w v arbitrary: p e st rule: kn_tree.induct)
  case (1 weight "value" i w v)
  show ?case
  proof (cases "length weight \<le> i")
    case True
    then show ?thesis
      by (subst kn_dfs.simps, subst kn_tree.simps) (simp add: case_prod_beta)
  next
    case False
    then have iv: "i < length weight" "i < length value" using 1(4) by simp_all
    show ?thesis
    proof (cases "weight ! i \<le> w")
      case True
      show ?thesis
        using False True iv 1(1) [OF False True 1(4)] 1(2) [OF False True 1(4)]
        by (subst kn_dfs.simps, subst kn_tree.simps) (simp add: case_prod_beta py_get_def)
    next
      case F2: False
      show ?thesis
        using False F2 iv 1(3) [OF False F2 1(4)]
        by (subst kn_dfs.simps, subst kn_tree.simps) (simp add: case_prod_beta py_get_def)
    qed
  qed
qed

lemma ts_dfs_walk:
  "i \<le> length nums \<Longrightarrow>
   ts_dfs nums target i s p e st = Inr (walk ts_goal (ts_tree nums target i s) p e st)"
proof (induction nums target i s arbitrary: p e st rule: ts_tree.induct)
  case (1 nums target i s)
  show ?case
  proof (cases "length nums \<le> i")
    case True
    then have "i = length nums" using 1(3) by simp
    then show ?thesis
      by (subst ts_dfs.simps, subst ts_tree.simps) (simp add: case_prod_beta)
  next
    case False
    then have iv: "i < length nums" "i + 1 \<le> length nums" by simp_all
    show ?thesis
      using False iv(1) 1(1) [OF False iv(2)] 1(2) [OF False iv(2)]
      by (subst ts_dfs.simps, subst ts_tree.simps) (simp add: case_prod_beta py_get_def)
  qed
qed

lemma labels_kn_tree:
  "labels (kn_tree weight value i w v) =
     map (\<lambda>(i, w, v). kn_label i w v) (kn_preorder weight value i w v)"
proof (induction weight "value" i w v rule: kn_tree.induct)
  case (1 weight "value" i w v)
  then show ?case
    by (subst kn_tree.simps, subst kn_preorder.simps) simp
qed

lemma labels_ts_tree:
  "labels (ts_tree nums target i s) = map (\<lambda>(i, s). ts_label i s) (ts_preorder nums i s)"
proof (induction nums target i s rule: ts_tree.induct)
  case (1 nums target i s)
  then show ?case
    by (subst ts_tree.simps, subst ts_preorder.simps) simp
qed

lemma str_int_no_us: "CHR ''_'' \<notin> set (str_int i)"
  by (simp add: str_int_def str_nat_no_us)

lemma kn_label_no_us: "CHR ''_'' \<notin> set (kn_label i w v)"
  by (simp add: kn_label_def str_int_no_us str_nat_no_us)

lemma ts_label_no_us: "CHR ''_'' \<notin> set (ts_label i s)"
  by (simp add: ts_label_def str_int_no_us str_nat_no_us)

lemma init_ok:
  "ids_ok dfs_init" "parents_ok dfs_init" "parent_ok None dfs_init"
  "ids_ok ts_init" "parents_ok ts_init" "parent_ok None ts_init"
  by (simp_all add: ids_ok_def parents_ok_def parent_ok_def dfs_init_def ts_init_def)

lemma ts_goal_fields:
  "trace (ts_goal u s) = trace s \<and> node_counter (ts_goal u s) = node_counter s
     \<and> parent_map (ts_goal u s) = parent_map s"
  by (simp add: ts_goal_def)

lemma run_knapsack_dfs_walk:
  "length weight = length value \<Longrightarrow>
   run_knapsack_dfs weight value W = Inr (walk (\<lambda>u s. s) (kn_tree weight value 0 W 0) None [] dfs_init)"
  by (simp add: run_knapsack_dfs_def kn_dfs_walk)

lemma run_target_sum_dfs_walk:
  "run_target_sum_dfs nums target = Inr (walk ts_goal (ts_tree nums target 0 0) None [] ts_init)"
  by (simp add: run_target_sum_dfs_def ts_dfs_walk)

lemma kn_run_invariant:
  "ids_ok (walk (\<lambda>u s. s) (kn_tree weight value i w v) None [] dfs_init)
   \<and> parents_ok (walk (\<lambda>u s. s) (kn_tree weight value i w v) None [] dfs_init)"
proof (rule walk_invariant)
  fix l assume "l \<in> set (labels (kn_tree weight value i w v))"
  then show "CHR ''_'' \<notin> set l" by (auto simp: labels_kn_tree kn_label_no_us)
qed (simp_all add: init_ok)

lemma ts_run_invariant:
  "ids_ok (walk ts_goal (ts_tree nums target i s) None [] ts_init)
   \<and> parents_ok (walk ts_goal (ts_tree nums target i s) None [] ts_init)"
proof (rule walk_invariant)
  fix l assume "l \<in> set (labels (ts_tree nums target i s))"
  then show "CHR ''_'' \<notin> set l" by (auto simp: labels_ts_tree ts_label_no_us)
qed (simp_all add: init_ok ts_goal_fields)

subsection \<open>Visiting order and identifiers\<close>

text \<open>
  Claim C3: on validated input (the two lists of Knapsack have the same length) both
  enumerators return, and the trace is the pre-order sequence of states of the
  specification, each signature numbered by occurrence: for Knapsack the state, then the
  skip subtree, then the pick subtree when \<open>weight[i] \<le> w\<close>; for Target Sum the state,
  then the \<open>+\<close> subtree, then the \<open>-\<close> subtree; past the last index the state alone.
\<close>

theorem dfs_visits_in_preorder:
  assumes "length weight = length value"
  shows "(\<exists>r. run_knapsack_dfs weight value W = Inr r
            \<and> trace r = assign_ids Map.empty
                 (map (\<lambda>(i, w, v). kn_label i w v) (kn_preorder weight value 0 W 0)))
       \<and> (\<exists>r. run_target_sum_dfs nums target = Inr r
            \<and> trace r = assign_ids Map.empty
                 (map (\<lambda>(i, s). ts_label i s) (ts_preorder nums 0 0)))"
proof -
  have "trace (walk (\<lambda>u s. s) (kn_tree weight value 0 W 0) None [] dfs_init)
      = assign_ids Map.empty (labels (kn_tree weight value 0 W 0))"
    using walk_trace_counter [of "\<lambda>u s. s" "kn_tree weight value 0 W 0" None "[]" dfs_init]
    by (simp add: dfs_init_def)
  moreover have "trace (walk ts_goal (ts_tree nums target 0 0) None [] ts_init)
      = assign_ids Map.empty (labels (ts_tree nums target 0 0))"
    using walk_trace_counter [of ts_goal "ts_tree nums target 0 0" None "[]" ts_init]
    by (simp add: ts_init_def ts_goal_fields)
  ultimately show ?thesis
    using assms by (simp add: run_knapsack_dfs_walk run_target_sum_dfs_walk labels_kn_tree labels_ts_tree)
qed

theorem dfs_visits_in_preorder_witness:
  "length [2, 3 :: int] = length [3, 4 :: int]
   \<and> (\<exists>r. run_knapsack_dfs [2, 3] [3, 4] 4 = Inr r
        \<and> trace r = [''dp(0,4,0)_1'', ''dp(1,4,0)_1'', ''dp(2,4,0)_1'', ''dp(2,1,4)_1'',
                      ''dp(1,2,3)_1'', ''dp(2,2,3)_1''])
   \<and> (\<exists>r. run_target_sum_dfs [1, 1] 0 = Inr r
        \<and> trace r = [''dfs(0, 0)_1'', ''dfs(1, 1)_1'', ''dfs(2, 2)_1'', ''dfs(2, 0)_1'',
                      ''dfs(1, -1)_1'', ''dfs(2, 0)_2'', ''dfs(2, -2)_1''])"
proof -
  have a: "assign_ids Map.empty (map (\<lambda>(i, w, v). kn_label i w v) (kn_preorder [2, 3] [3, 4] 0 4 0))
      = [''dp(0,4,0)_1'', ''dp(1,4,0)_1'', ''dp(2,4,0)_1'', ''dp(2,1,4)_1'',
         ''dp(1,2,3)_1'', ''dp(2,2,3)_1'']"
    by code_simp
  have b: "assign_ids Map.empty (map (\<lambda>(i, s). ts_label i s) (ts_preorder [1, 1] 0 0))
      = [''dfs(0, 0)_1'', ''dfs(1, 1)_1'', ''dfs(2, 2)_1'', ''dfs(2, 0)_1'',
         ''dfs(1, -1)_1'', ''dfs(2, 0)_2'', ''dfs(2, -2)_1'']"
    by code_simp
  show ?thesis
    using dfs_visits_in_preorder [of "[2, 3]" "[3, 4]" 4 "[1, 1]" 0] a b by simp
qed

text \<open>
  Claim C7: a visit raises the counter of its signature by one, leaves the other
  counters alone and names the node by the new count; on validated input both
  enumerators return a trace without repeated identifier.
\<close>

theorem node_ids_distinct:
  assumes "length weight = length value"
  shows "count0 (node_counter (snd (visit l p e st))) l = count0 (node_counter st) l + 1
       \<and> fst (visit l p e st) = node_id l (count0 (node_counter (snd (visit l p e st))) l)
       \<and> (\<exists>r. run_knapsack_dfs weight value W = Inr r \<and> distinct (trace r))
       \<and> (\<exists>r. run_target_sum_dfs nums target = Inr r \<and> distinct (trace r))"
proof -
  have "distinct (trace (walk (\<lambda>u s. s) (kn_tree weight value 0 W 0) None [] dfs_init))"
    using kn_run_invariant [of weight "value" 0 W 0] by (simp add: parents_ok_def)
  moreover have "distinct (trace (walk ts_goal (ts_tree nums target 0 0) None [] ts_init))"
    using ts_run_invariant [of nums target 0 0] by (simp add: parents_ok_def)
  ultimately show ?thesis
    using assms
    by (simp add: run_knapsack_dfs_walk run_target_sum_dfs_walk visit_counter visit_fst count0_upd)
qed

theorem node_ids_distinct_witness:
  "length [2, 3 :: int] = length [3, 4 :: int]
   \<and> (\<exists>r. run_knapsack_dfs [2, 3] [3, 4] 4 = Inr r \<and> distinct (trace r))
   \<and> (\<exists>r. run_target_sum_dfs [1, 1] 0 = Inr r \<and> distinct (trace r))"
  using node_ids_distinct [of "[2, 3]" "[3, 4]" "''x''" None "''''" dfs_init 4 "[1, 1]" 0]
  by simp

subsection \<open>Goal leaves and the ways counter\<close>

lemma visit_ts_fields:
  "valid_leaves (snd (visit l p e st)) = valid_leaves st"
  "ways_count (snd (visit l p e st)) = ways_count st"
  by (simp_all add: visit_def Let_def split: option.splits)

lemma length_assign_ids: "length (assign_ids m ls) = length ls"
  by (induction ls arbitrary: m) simp_all

lemma length_goals: "length (goals t) = length (labels t)"
  by (induction t) simp_all

lemma count_goals: "length (filter id (goals t)) = goal_count t"
  by (induction t) simp_all

lemma goal_ids_Leaf:
  "goal_ids m (Leaf l g) = (if g then [node_id l (count0 m l + 1)] else [])"
  by (simp add: goal_ids_def)

lemma goal_ids_Node1:
  "goal_ids m (Node1 l e1 t1) = goal_ids (bump_all m [l]) t1"
  by (simp add: goal_ids_def)

lemma goal_ids_Node2:
  "goal_ids m (Node2 l e1 t1 e2 t2) =
     goal_ids (bump_all m [l]) t1 @ goal_ids (bump_all (bump_all m [l]) (labels t1)) t2"
  by (simp add: goal_ids_def assign_ids_append length_assign_ids length_goals)

lemma ts_walk_trace_counter:
  "trace (walk ts_goal t p e st) = trace st @ assign_ids (node_counter st) (labels t)"
  "node_counter (walk ts_goal t p e st) = bump_all (node_counter st) (labels t)"
  using walk_trace_counter [of ts_goal t p e st] by (simp_all add: ts_goal_def)

lemma walk_ts_goal:
  "valid_leaves (walk ts_goal t p e st) = valid_leaves st @ goal_ids (node_counter st) t
   \<and> ways_count (walk ts_goal t p e st) = ways_count st + goal_count t"
proof (induction t arbitrary: p e st)
  case (Leaf l g)
  show ?case
    by (simp add: walk_Leaf goal_ids_Leaf ts_goal_def visit_ts_fields visit_fst del: walk.simps)
next
  case (Node1 l e1 t1)
  show ?case
    by (simp only: walk_Node1 Node1.IH goal_ids_Node1 visit_ts_fields visit_trace_counter
        goal_count.simps)
next
  case (Node2 l e1 t1 e2 t2)
  show ?case
    by (simp only: walk_Node2 Node2.IH goal_ids_Node2 visit_ts_fields visit_trace_counter
        ts_walk_trace_counter goal_count.simps append_assoc add.assoc)
qed

lemma goals_ts_tree:
  "i \<le> length nums \<Longrightarrow>
   goals (ts_tree nums target i s) =
     map (\<lambda>(i, s). i = length nums \<and> s = target) (ts_preorder nums i s)"
proof (induction nums target i s rule: ts_tree.induct)
  case (1 nums target i s)
  show ?case
  proof (cases "length nums \<le> i")
    case True
    then show ?thesis using 1(3)
      by (subst ts_tree.simps, subst ts_preorder.simps) simp
  next
    case False
    then have "i + 1 \<le> length nums" by simp
    then show ?thesis using False 1(1) [OF False] 1(2) [OF False]
      by (subst ts_tree.simps, subst ts_preorder.simps) simp
  qed
qed

lemma sign_sets_Nil: "sign_sets target [] s = (if s = target then {[]} else {})"
  by (auto simp: sign_sets_def)

lemma sign_sets_Cons:
  "sign_sets target (x # xs) s =
     (#) 1 ` sign_sets target xs (s + x) \<union> (#) (- 1) ` sign_sets target xs (s - x)"
proof (rule set_eqI)
  fix sg
  show "sg \<in> sign_sets target (x # xs) s \<longleftrightarrow>
        sg \<in> (#) 1 ` sign_sets target xs (s + x) \<union> (#) (- 1) ` sign_sets target xs (s - x)"
  proof (cases sg)
    case Nil
    then show ?thesis by (auto simp: sign_sets_def)
  next
    case (Cons a sg')
    then show ?thesis by (auto simp: sign_sets_def algebra_simps)
  qed
qed

lemma finite_sign_sets: "finite (sign_sets target xs s)"
proof -
  have "sign_sets target xs s \<subseteq> {sg. set sg \<subseteq> {1, - 1} \<and> length sg = length xs}"
    by (auto simp: sign_sets_def)
  then show ?thesis by (rule finite_subset) (simp add: finite_lists_length_eq)
qed

lemma card_sign_sets_Cons:
  "card (sign_sets target (x # xs) s) =
     card (sign_sets target xs (s + x)) + card (sign_sets target xs (s - x))"
proof -
  have "(#) (1::int) ` sign_sets target xs (s + x) \<inter> (#) (- 1) ` sign_sets target xs (s - x) = {}"
    by auto
  then have "card (sign_sets target (x # xs) s) =
      card ((#) (1::int) ` sign_sets target xs (s + x)) + card ((#) (- 1 :: int) ` sign_sets target xs (s - x))"
    unfolding sign_sets_Cons by (intro card_Un_disjoint) (simp_all add: finite_sign_sets)
  then show ?thesis by (simp add: card_image)
qed

lemma goal_count_ts_tree:
  "i \<le> length nums \<Longrightarrow>
   goal_count (ts_tree nums target i s) = card (sign_sets target (drop i nums) s)"
proof (induction nums target i s rule: ts_tree.induct)
  case (1 nums target i s)
  show ?case
  proof (cases "length nums \<le> i")
    case True
    then show ?thesis by (subst ts_tree.simps) (simp add: sign_sets_Nil)
  next
    case False
    then have le: "i + 1 \<le> length nums" and d: "drop i nums = nums ! i # drop (i + 1) nums"
      by (simp_all add: Cons_nth_drop_Suc)
    show ?thesis
      using False 1(1) [OF False le] 1(2) [OF False le]
      by (subst ts_tree.simps) (simp add: d card_sign_sets_Cons del: drop_Suc_Cons)
  qed
qed

lemma sign_ways_sign_sets: "sign_ways nums target = card (sign_sets target nums 0)"
  by (simp add: sign_ways_def sign_sets_def)

lemma length_filter_snd_zip:
  "length xs = length ys \<Longrightarrow> length (filter snd (zip xs ys)) = length (filter id ys)"
  by (induction xs ys rule: list_induct2) simp_all

lemma length_goal_ids: "length (goal_ids m t) = goal_count t"
  by (simp add: goal_ids_def length_filter_snd_zip length_assign_ids length_goals count_goals)

lemma filter_snd_zip_map:
  "map fst (filter snd (zip xs (map f ys))) = map fst (filter (\<lambda>(x, y). f y) (zip xs ys))"
proof (induction ys arbitrary: xs)
  case Nil
  then show ?case by simp
next
  case (Cons y ys)
  then show ?case by (cases xs) simp_all
qed

lemma ts_run_fields:
  "trace (walk ts_goal (ts_tree nums target 0 0) None [] ts_init)
     = assign_ids Map.empty (labels (ts_tree nums target 0 0))"
  "valid_leaves (walk ts_goal (ts_tree nums target 0 0) None [] ts_init)
     = goal_ids Map.empty (ts_tree nums target 0 0)"
  "ways_count (walk ts_goal (ts_tree nums target 0 0) None [] ts_init)
     = goal_count (ts_tree nums target 0 0)"
  using walk_ts_goal [of "ts_tree nums target 0 0" None "[]" ts_init]
  by (simp_all add: ts_walk_trace_counter) (simp_all add: ts_init_def)

text \<open>
  Claim C4, with the number of its example corrected: the run returns; its
  \<open>ways_count\<close> is the number of sign assignments over \<open>nums\<close> whose signed sum is the
  target; the goal leaves recorded are the trace entries of exactly the terminal states
  whose accumulated sum equals the target, and \<open>ways_count\<close> is their number.  For
  \<open>nums = [1,1,1]\<close> and target 2 the count is 0: three odd numbers never sum to 2.
\<close>

theorem ways_count_is_sign_count:
  "(\<exists>r. run_target_sum_dfs nums target = Inr r
       \<and> ways_count r = sign_ways nums target
       \<and> valid_leaves r =
           map fst (filter (\<lambda>(x, (i, s)). i = length nums \<and> s = target)
                      (zip (trace r) (ts_preorder nums 0 0)))
       \<and> ways_count r = length (valid_leaves r))
   \<and> map_sum id ways_count (run_target_sum_dfs [1, 1, 1] 2) = Inr 0"
proof -
  let ?r = "walk ts_goal (ts_tree nums target 0 0) None [] ts_init"
  have a: "ways_count ?r = sign_ways nums target"
    using goal_count_ts_tree [of 0 nums target 0]
    by (simp add: ts_run_fields sign_ways_sign_sets)
  have "valid_leaves ?r =
      map fst (filter snd (zip (trace ?r)
         (map (\<lambda>(i, s). i = length nums \<and> s = target) (ts_preorder nums 0 0))))"
    using goals_ts_tree [of 0 nums target 0]
    by (simp add: ts_run_fields goal_ids_def)
  then have b: "valid_leaves ?r =
      map fst (filter (\<lambda>(x, (i, s)). i = length nums \<and> s = target)
                 (zip (trace ?r) (ts_preorder nums 0 0)))"
    by (simp only: filter_snd_zip_map)
  have c: "ways_count ?r = length (valid_leaves ?r)"
    by (simp add: ts_run_fields length_goal_ids)
  have "goal_count (ts_tree [1, 1, 1] 2 0 0) = 0" by code_simp
  then have d: "map_sum id ways_count (run_target_sum_dfs [1, 1, 1] 2) = Inr 0"
    by (simp add: run_target_sum_dfs_walk ts_run_fields)
  show ?thesis using a b c d by (simp add: run_target_sum_dfs_walk)
qed

text \<open>
  Claim C4 as stated gives 3 ways for \<open>nums = [1,1,1]\<close> and target 2; the run counts none.
\<close>

theorem ways_count_111_counterexample:
  "map_sum id ways_count (run_target_sum_dfs [1, 1, 1] 2) \<noteq> Inr 3"
proof -
  have "goal_count (ts_tree [1, 1, 1] 2 0 0) = 0" by code_simp
  then have "map_sum id ways_count (run_target_sum_dfs [1, 1, 1] 2) = Inr 0"
    by (simp add: run_target_sum_dfs_walk ts_run_fields)
  then show ?thesis by simp
qed

subsection \<open>The path highlighter\<close>

lemma quick_parent_fold:
  "distinct (map fst pm) \<Longrightarrow>
   fold (\<lambda>(c, (p, lbl)) qp. qp(c \<mapsto> p)) pm m c =
     (case map_of pm c of Some (p, l) \<Rightarrow> Some p | None \<Rightarrow> m c)"
proof (induction pm arbitrary: m)
  case Nil
  then show ?case by simp
next
  case (Cons a pm)
  obtain c0 p0 l0 where a: "a = (c0, (p0, l0))" by (cases a) auto
  have n: "map_of pm c0 = None" using Cons.prems a by (simp add: map_of_eq_None_iff)
  show ?case using Cons.IH [of "m(c0 \<mapsto> p0)"] Cons.prems n
    by (simp add: a split: option.splits)
qed

lemma quick_parent_eq:
  "distinct (map fst pm) \<Longrightarrow>
   quick_parent pm c = (case map_of pm c of Some (p, l) \<Rightarrow> Some p | None \<Rightarrow> None)"
  by (simp add: quick_parent_def quick_parent_fold)

lemma g_edges_add_nodes: "g_edges (fold (\<lambda>nid. add_node nid (f nid)) tr G) = g_edges G"
  by (induction tr arbitrary: G) (simp_all add: add_node_def)

lemma g_edges_fold:
  "distinct (map fst pm) \<Longrightarrow>
   g_edges (fold (\<lambda>(c, (p, l)). add_edge p c l) pm G) (p, c) =
     (case map_of pm c of
        Some (p', l) \<Rightarrow> if p' = p then Some l else g_edges G (p, c)
      | None \<Rightarrow> g_edges G (p, c))"
proof (induction pm arbitrary: G)
  case Nil
  then show ?case by simp
next
  case (Cons a pm)
  obtain c0 p0 l0 where a: "a = (c0, (p0, l0))" by (cases a) auto
  have n: "map_of pm c0 = None" using Cons.prems a by (simp add: map_of_eq_None_iff)
  show ?case using Cons.IH [of "add_edge p0 c0 l0 G"] Cons.prems n
    by (auto simp add: a add_edge_def split: option.splits)
qed

lemma edge_rel_graph_of_trace:
  assumes "distinct (map fst pm)"
  shows "edge_rel (graph_of_trace tr pm) = parent_rel (quick_parent pm)"
proof -
  have "g_edges (graph_of_trace tr pm) (p, c) \<noteq> None \<longleftrightarrow> quick_parent pm c = Some p" for p c
    using assms
    by (auto simp add: graph_of_trace_def g_edges_fold g_edges_add_nodes DiGraph_def
        quick_parent_eq split: option.splits)
  then show ?thesis by (auto simp: edge_rel_def parent_rel_def)
qed

lemma anc_None:
  assumes "qp x = None"
  shows "(y, x) \<in> (parent_rel qp)\<^sup>* \<longleftrightarrow> y = x"
proof
  assume "(y, x) \<in> (parent_rel qp)\<^sup>*"
  then show "y = x"
  proof (cases rule: rtrancl.cases)
    case rtrancl_refl
    then show ?thesis by simp
  next
    case (rtrancl_into_rtrancl z)
    then show ?thesis using assms by (simp add: parent_rel_def)
  qed
qed simp

lemma anc_Some:
  assumes "qp x = Some p"
  shows "(y, x) \<in> (parent_rel qp)\<^sup>* \<longleftrightarrow> y = x \<or> (y, p) \<in> (parent_rel qp)\<^sup>*"
proof
  assume "(y, x) \<in> (parent_rel qp)\<^sup>*"
  then show "y = x \<or> (y, p) \<in> (parent_rel qp)\<^sup>*"
  proof (cases rule: rtrancl.cases)
    case rtrancl_refl
    then show ?thesis by simp
  next
    case (rtrancl_into_rtrancl z)
    then have "z = p" using assms by (simp add: parent_rel_def)
    then show ?thesis using rtrancl_into_rtrancl by simp
  qed
next
  assume "y = x \<or> (y, p) \<in> (parent_rel qp)\<^sup>*"
  moreover have "(p, x) \<in> parent_rel qp" using assms by (simp add: parent_rel_def)
  ultimately show "(y, x) \<in> (parent_rel qp)\<^sup>*" by (auto intro: rtrancl_into_rtrancl)
qed

lemma climb_ancestors:
  assumes wf: "\<And>j. j < length T \<Longrightarrow>
      (case qp (T ! j) of None \<Rightarrow> j = 0 | Some p \<Rightarrow> \<exists>k<j. p = T ! k)"
  shows "j < length T \<Longrightarrow>
     climb qp (T ! j) H = Some (H \<union> {y. (y, T ! j) \<in> (parent_rel qp)\<^sup>*})"
proof (induction j arbitrary: H rule: less_induct)
  case (less j)
  show ?case
  proof (cases "qp (T ! j)")
    case None
    then have "{y. (y, T ! j) \<in> (parent_rel qp)\<^sup>*} = {T ! j}" by (simp add: anc_None)
    then show ?thesis using None by (subst climb.simps) simp
  next
    case (Some p)
    then obtain k where k: "k < j" "p = T ! k" using wf [OF less.prems] by auto
    have "{y. (y, T ! j) \<in> (parent_rel qp)\<^sup>*} = insert (T ! j) {y. (y, p) \<in> (parent_rel qp)\<^sup>*}"
      using Some by (auto simp: anc_Some)
    moreover have "climb qp p (insert (T ! j) H)
        = Some (insert (T ! j) H \<union> {y. (y, p) \<in> (parent_rel qp)\<^sup>*})"
      unfolding k(2) using k(1) less.prems by (intro less.IH) simp_all
    ultimately show ?thesis using Some by (subst climb.simps) simp
  qed
qed

lemma root_reaches:
  assumes wf: "\<And>j. j < length T \<Longrightarrow>
      (case qp (T ! j) of None \<Rightarrow> j = 0 | Some p \<Rightarrow> \<exists>k<j. p = T ! k)"
  shows "j < length T \<Longrightarrow> (T ! 0, T ! j) \<in> (parent_rel qp)\<^sup>*"
proof (induction j rule: less_induct)
  case (less j)
  show ?case
  proof (cases "qp (T ! j)")
    case None
    then have "j = 0" using wf [OF less.prems] by simp
    then show ?thesis by simp
  next
    case (Some p)
    then obtain k where k: "k < j" "p = T ! k" using wf [OF less.prems] by auto
    have "(T ! 0, T ! k) \<in> (parent_rel qp)\<^sup>*" using k(1) less.prems by (intro less.IH) simp_all
    moreover have "(T ! k, T ! j) \<in> parent_rel qp" using Some k(2) by (simp add: parent_rel_def)
    ultimately show ?thesis by (rule rtrancl_into_rtrancl)
  qed
qed

lemma ancestors_in_trace:
  assumes wf: "\<And>j. j < length T \<Longrightarrow>
      (case qp (T ! j) of None \<Rightarrow> j = 0 | Some p \<Rightarrow> \<exists>k<j. p = T ! k)"
  shows "j < length T \<Longrightarrow> (y, T ! j) \<in> (parent_rel qp)\<^sup>* \<Longrightarrow> y \<in> set T"
proof (induction j rule: less_induct)
  case (less j)
  show ?case
  proof (cases "qp (T ! j)")
    case None
    then have "y = T ! j" using less.prems(2) by (simp add: anc_None)
    then show ?thesis using less.prems(1) by simp
  next
    case (Some p)
    then obtain k where k: "k < j" "p = T ! k" using wf [OF less.prems(1)] by auto
    from less.prems(2) Some consider "y = T ! j" | "(y, T ! k) \<in> (parent_rel qp)\<^sup>*"
      by (auto simp: anc_Some k(2))
    then show ?thesis
    proof cases
      case 1
      then show ?thesis using less.prems(1) by simp
    next
      case 2
      show ?thesis using k(1) less.prems(1) 2 by (intro less.IH [of k]) simp_all
    qed
  qed
qed

lemma highlight_all_ancestors:
  assumes wf: "\<And>j. j < length T \<Longrightarrow>
      (case qp (T ! j) of None \<Rightarrow> j = 0 | Some p \<Rightarrow> \<exists>k<j. p = T ! k)"
  shows "set ls \<subseteq> set T \<Longrightarrow>
     highlight_all qp ls H = Some (H \<union> {y. \<exists>leaf\<in>set ls. (y, leaf) \<in> (parent_rel qp)\<^sup>*})"
proof (induction ls arbitrary: H)
  case Nil
  then show ?case by simp
next
  case (Cons leaf ls)
  then obtain j where j: "j < length T" "leaf = T ! j" by (auto simp: in_set_conv_nth)
  have "climb qp leaf H = Some (H \<union> {y. (y, leaf) \<in> (parent_rel qp)\<^sup>*})"
    unfolding j(2) using wf j(1) by (rule climb_ancestors)
  moreover have "highlight_all qp ls (H \<union> {y. (y, leaf) \<in> (parent_rel qp)\<^sup>*})
      = Some (H \<union> {y. (y, leaf) \<in> (parent_rel qp)\<^sup>*}
            \<union> {y. \<exists>leaf\<in>set ls. (y, leaf) \<in> (parent_rel qp)\<^sup>*})"
    using Cons.prems by (intro Cons.IH) simp
  ultimately show ?case by (auto simp: Un_assoc)
qed

lemma set_goal_ids: "set (goal_ids m t) \<subseteq> set (assign_ids m (labels t))"
proof
  fix x assume "x \<in> set (goal_ids m t)"
  then obtain b where "(x, b) \<in> set (zip (assign_ids m (labels t)) (goals t))"
    by (auto simp: goal_ids_def)
  then show "x \<in> set (assign_ids m (labels t))" by (rule set_zip_leftD)
qed

lemma labels_nonempty: "labels t \<noteq> []"
  by (cases t) simp_all

lemma assign_ids_nonempty: "ls \<noteq> [] \<Longrightarrow> assign_ids m ls \<noteq> []"
  by (cases ls) simp_all

lemma ts_highlight_result:
  "\<exists>r G H. run_target_sum_dfs nums target = Inr r
     \<and> ts_create_tree_graph_from_trace (trace r) (parent_map r) (valid_leaves r) = Some (G, H)
     \<and> H = {x. \<exists>leaf\<in>set (valid_leaves r). on_path G (hd (trace r)) leaf x}"
proof -
  define r where "r = walk ts_goal (ts_tree nums target 0 0) None [] ts_init"
  define T where "T = trace r"
  define qp where "qp = quick_parent (parent_map r)"
  define G where "G = graph_of_trace (trace r) (parent_map r)"
  have run: "run_target_sum_dfs nums target = Inr r"
    by (simp add: r_def run_target_sum_dfs_walk)
  have po: "parents_ok r" unfolding r_def using ts_run_invariant [of nums target 0 0] by simp
  then have dk: "distinct (map fst (parent_map r))" by (simp add: parents_ok_def)
  have wf: "case qp (T ! j) of None \<Rightarrow> j = 0 | Some p \<Rightarrow> \<exists>k<j. p = T ! k"
    if "j < length T" for j
  proof -
    have "case map_of (parent_map r) (T ! j) of None \<Rightarrow> j = 0
          | Some (p, l) \<Rightarrow> \<exists>k<j. p = T ! k"
      using po that unfolding parents_ok_def T_def by simp
    then show ?thesis
      by (auto simp add: qp_def quick_parent_eq [OF dk] split: option.splits)
  qed
  have tr: "T = assign_ids Map.empty (labels (ts_tree nums target 0 0))"
    by (simp add: T_def r_def ts_run_fields)
  then have ne: "T \<noteq> []" by (simp add: assign_ids_nonempty labels_nonempty)
  have lv: "set (valid_leaves r) \<subseteq> set T"
    using set_goal_ids [of Map.empty "ts_tree nums target 0 0"]
    by (simp add: tr r_def ts_run_fields)
  have er: "edge_rel G = parent_rel qp"
    unfolding G_def qp_def using dk by (rule edge_rel_graph_of_trace)
  have hl: "highlight_all qp (valid_leaves r) {}
      = Some ({} \<union> {y. \<exists>leaf\<in>set (valid_leaves r). (y, leaf) \<in> (parent_rel qp)\<^sup>*})"
    using wf lv by (rule highlight_all_ancestors)
  have path: "on_path G (hd T) leaf x \<longleftrightarrow> (x, leaf) \<in> (parent_rel qp)\<^sup>*"
    if leaf: "leaf \<in> set (valid_leaves r)" for leaf x
  proof
    assume "on_path G (hd T) leaf x"
    then show "(x, leaf) \<in> (parent_rel qp)\<^sup>*" by (simp add: on_path_def er)
  next
    assume a: "(x, leaf) \<in> (parent_rel qp)\<^sup>*"
    from leaf lv have "leaf \<in> set T" by blast
    then obtain j where j: "j < length T" "leaf = T ! j"
      by (auto simp: in_set_conv_nth)
    have "x \<in> set T" using wf j(1) a unfolding j(2) by (rule ancestors_in_trace)
    then obtain k where k: "k < length T" "x = T ! k" by (auto simp: in_set_conv_nth)
    have "(T ! 0, T ! k) \<in> (parent_rel qp)\<^sup>*" using wf k(1) by (rule root_reaches)
    then have "(hd T, x) \<in> (parent_rel qp)\<^sup>*" using ne k(2) by (simp add: hd_conv_nth)
    then show "on_path G (hd T) leaf x" using a by (simp add: on_path_def er)
  qed
  have "ts_create_tree_graph_from_trace (trace r) (parent_map r) (valid_leaves r)
      = Some (G, {y. \<exists>leaf\<in>set (valid_leaves r). (y, leaf) \<in> (parent_rel qp)\<^sup>*})"
    using hl by (simp add: ts_create_tree_graph_from_trace_def G_def qp_def)
  moreover have "{y. \<exists>leaf\<in>set (valid_leaves r). (y, leaf) \<in> (parent_rel qp)\<^sup>*}
      = {x. \<exists>leaf\<in>set (valid_leaves r). on_path G (hd (trace r)) leaf x}"
    using path by (auto simp: T_def)
  ultimately show ?thesis using run by blast
qed

text \<open>
  Claim C5: for every Target Sum run the highlighter returns, and the set it returns
  is the set of nodes lying on a path of the graph from the root (the first node of the
  trace) to a goal leaf.
\<close>

theorem highlighted_nodes_are_goal_paths:
  "\<exists>r G H. run_target_sum_dfs nums target = Inr r
     \<and> ts_create_tree_graph_from_trace (trace r) (parent_map r) (valid_leaves r) = Some (G, H)
     \<and> H = {x. \<exists>leaf\<in>set (valid_leaves r). on_path G (hd (trace r)) leaf x}"
  by (rule ts_highlight_result)

subsection \<open>The table\<close>

lemma ebind_Inr [simp]: "ebind (Inr x) f = f x"
  by (simp add: ebind_def)

lemma ebind_Inl [simp]: "ebind (Inl e) f = Inl e"
  by (simp add: ebind_def)

lemma foldM_append: "foldM f (xs @ ys) s = ebind (foldM f xs s) (foldM f ys)"
  by (induction xs arbitrary: s) (simp_all add: ebind_def split: sum.splits)

lemma py_get_in: "0 \<le> j \<Longrightarrow> j < int (length xs) \<Longrightarrow> py_get xs j = Inr (xs ! nat j)"
  by (simp add: py_get_def)

lemma py_set_in: "0 \<le> j \<Longrightarrow> j < int (length xs) \<Longrightarrow> py_set xs j v = Inr (xs[nat j := v])"
  by (simp add: py_set_def)

lemma py_get2_in:
  "i < length dp \<Longrightarrow> 0 \<le> j \<Longrightarrow> j < int (length (dp ! i))
   \<Longrightarrow> py_get2 dp (int i) j = Inr (dp ! i ! nat j)"
  by (simp add: py_get2_def py_get_in)

lemma py_set2_in:
  "i < length dp \<Longrightarrow> w < length (dp ! i)
   \<Longrightarrow> py_set2 dp (int i) (int w) v = Inr (dp[i := (dp ! i)[w := v]])"
  by (simp add: py_set2_def py_get_in py_set_in)

lemma dp_cell_Suc:
  assumes i: "Suc i < length dp" and wt: "i < length weight"
    and vl: "weight ! i \<le> int w \<Longrightarrow> i < length value"
    and w: "w < length (dp ! i)" "w < length (dp ! Suc i)" and nn: "0 \<le> weight ! i"
  shows "dp_cell weight value (Suc i) w dp
       = Inr (dp[Suc i := (dp ! Suc i)[w := cell_of weight value i (dp ! i) w]])"
proof -
  let ?dp1 = "dp[Suc i := (dp ! Suc i)[w := dp ! i ! w]]"
  have i': "i < length dp" using i by simp
  have g1: "py_get2 dp (int (Suc i) - 1) (int w) = Inr (dp ! i ! w)"
    using py_get2_in [OF i', of "int w"] w by simp
  have s1: "py_set2 dp (int (Suc i)) (int w) (dp ! i ! w) = Inr ?dp1"
    using i w by (simp only: py_set2_in)
  have g2: "py_get weight (int (Suc i) - 1) = Inr (weight ! i)"
    using wt by (simp add: py_get_in)
  have g3: "py_get value (int (Suc i) - 1) = Inr (value ! i)" if "weight ! i \<le> int w"
    using vl [OF that] by (simp add: py_get_in)
  have r1: "?dp1 ! i = dp ! i" by simp
  have r2: "?dp1 ! Suc i = (dp ! Suc i)[w := dp ! i ! w]" using i by simp
  have len1: "length ?dp1 = length dp" by simp
  have g4: "py_get2 ?dp1 (int (Suc i) - 1) (int w - weight ! i) = Inr (dp ! i ! nat (int w - weight ! i))"
    if "weight ! i \<le> int w"
  proof -
    have "py_get2 ?dp1 (int i) (int w - weight ! i) = Inr (?dp1 ! i ! nat (int w - weight ! i))"
      using that nn w i' by (intro py_get2_in) auto
    then show ?thesis by (simp only: r1) simp
  qed
  have g5: "py_get2 ?dp1 (int (Suc i)) (int w) = Inr (dp ! i ! w)"
    using py_get2_in [of "Suc i" ?dp1 "int w"] i w by (simp only: len1 r2) simp
  have s2: "py_set2 ?dp1 (int (Suc i)) (int w) x = Inr (dp[Suc i := (dp ! Suc i)[w := x]])" for x
    using py_set2_in [of "Suc i" ?dp1 w x] i w by (simp only: len1 r2) simp
  show ?thesis
  proof (cases "weight ! i \<le> int w")
    case True
    show ?thesis
      unfolding dp_cell_def
      by (simp only: g1 s1 g2 g3 [OF True] g4 [OF True] g5 s2 ebind_Inr Let_def True if_True)
         (simp add: cell_of_def True list_update_same_conv)
  next
    case False
    show ?thesis
      unfolding dp_cell_def
      by (simp only: g1 s1 g2 ebind_Inr False if_False) (simp add: cell_of_def False)
  qed
qed

lemma foldM_Nil_fun [simp]: "foldM f [] = Inr"
  by (rule ext) simp

lemma update_at_drop:
  "k < length old \<Longrightarrow> length xs = k \<Longrightarrow>
   (xs @ drop k old)[k := c] = (xs @ [c]) @ drop (Suc k) old"
  by (simp add: list_update_append Cons_nth_drop_Suc [symmetric])

lemma dp_row:
  assumes i: "Suc i < length dp" and wt: "i < length weight"
    and vl: "\<And>w. w < C \<Longrightarrow> weight ! i \<le> int w \<Longrightarrow> i < length value"
    and nn: "0 \<le> weight ! i" and l1: "length (dp ! i) = C" and l2: "length (dp ! Suc i) = C"
  shows "k \<le> C \<Longrightarrow>
     foldM (dp_cell weight value (Suc i)) [0..<k] dp
       = Inr (dp[Suc i := map (cell_of weight value i (dp ! i)) [0..<k] @ drop k (dp ! Suc i)])"
proof (induction k)
  case 0
  then show ?case by simp
next
  case (Suc k)
  let ?row = "map (cell_of weight value i (dp ! i)) [0..<k] @ drop k (dp ! Suc i)"
  let ?dpk = "dp[Suc i := ?row]"
  have k: "k < C" using Suc.prems by simp
  have ih: "foldM (dp_cell weight value (Suc i)) [0..<k] dp = Inr ?dpk"
    using Suc.IH k by simp
  have a: "Suc i < length ?dpk" using i by simp
  have b: "?dpk ! i = dp ! i" by simp
  have c: "?dpk ! Suc i = ?row" using i by simp
  have lr: "length ?row = C" using k l2 by simp
  have "dp_cell weight value (Suc i) k ?dpk
      = Inr (?dpk[Suc i := (?dpk ! Suc i)[k := cell_of weight value i (?dpk ! i) k]])"
    using a wt _ _ _ nn
  proof (rule dp_cell_Suc)
    show "weight ! i \<le> int k \<Longrightarrow> i < length value" using k by (rule vl)
    show "k < length (?dpk ! i)" using k l1 by (simp only: b)
    show "k < length (?dpk ! Suc i)" using k lr by (simp only: c)
  qed
  also have "\<dots> = Inr (dp[Suc i := ?row[k := cell_of weight value i (dp ! i) k]])"
    by (simp only: b c list_update_overwrite)
  also have "?row[k := cell_of weight value i (dp ! i) k]
      = (map (cell_of weight value i (dp ! i)) [0..<k] @ [cell_of weight value i (dp ! i) k])
          @ drop (Suc k) (dp ! Suc i)"
    using k l2 by (intro update_at_drop) simp_all
  finally have step: "dp_cell weight value (Suc i) k ?dpk
      = Inr (dp[Suc i := map (cell_of weight value i (dp ! i)) [0..<Suc k] @ drop (Suc k) (dp ! Suc i)])"
    by simp
  have "foldM (dp_cell weight value (Suc i)) [0..<Suc k] dp
      = ebind (dp_cell weight value (Suc i) k ?dpk) Inr"
    by (simp add: foldM_append ih)
  then show ?case by (simp only: step ebind_Inr)
qed

lemma knap_T_row:
  assumes nn: "0 \<le> weight ! k"
  shows "map (cell_of weight value k (map (knap_T weight value k) [0..<C])) [0..<C]
       = map (knap_T weight value (Suc k)) [0..<C]"
proof (rule map_cong [OF refl])
  fix w assume "w \<in> set [0..<C]"
  then have w: "w < C" by simp
  have "nat (int w - weight ! k) < C" using w nn by linarith
  then show "cell_of weight value k (map (knap_T weight value k) [0..<C]) w
      = knap_T weight value (Suc k) w"
    using w by (auto simp add: cell_of_def)
qed

lemma table_rows:
  assumes vl: "\<And>j w. j < length weight \<Longrightarrow> w < C \<Longrightarrow> weight ! j \<le> int w \<Longrightarrow> j < length value"
    and nn: "\<And>j. j < length weight \<Longrightarrow> 0 \<le> weight ! j"
  shows "k \<le> length weight \<Longrightarrow>
     foldM (\<lambda>i. foldM (dp_cell weight value i) [0..<C]) [1..<k + 1]
        (replicate (length weight + 1) (replicate C 0))
       = Inr (map (\<lambda>r. map (knap_T weight value r) [0..<C]) [0..<k + 1]
              @ replicate (length weight - k) (replicate C 0))"
proof (induction k)
  case 0
  have "map (knap_T weight value 0) [0..<C] = map (\<lambda>_. 0) [0..<C]" by simp
  then have "map (knap_T weight value 0) [0..<C] = replicate C 0"
    by (simp only: map_replicate_const) simp
  then show ?case by simp
next
  case (Suc k)
  let ?n = "length weight"
  let ?T = "\<lambda>r. map (knap_T weight value r) [0..<C]"
  let ?dpk = "map ?T [0..<k + 1] @ replicate (?n - k) (replicate C 0)"
  have k: "k < ?n" using Suc.prems by simp
  have ih: "foldM (\<lambda>i. foldM (dp_cell weight value i) [0..<C]) [1..<k + 1]
        (replicate (?n + 1) (replicate C 0)) = Inr ?dpk"
    using Suc.IH k by simp
  have len_dpk: "length ?dpk = ?n + 1" using k by simp
  have rk: "?dpk ! k = ?T k" by (simp add: nth_append)
  have rs: "?dpk ! Suc k = replicate C 0" using k by (simp add: nth_append)
  have "foldM (dp_cell weight value (Suc k)) [0..<C] ?dpk
      = Inr (?dpk[Suc k := map (cell_of weight value k (?dpk ! k)) [0..<C] @ drop C (?dpk ! Suc k)])"
  proof (rule dp_row)
    show "Suc k < length ?dpk" using k by (simp only: len_dpk)
    show "k < length weight" by (rule k)
    show "\<And>w. w < C \<Longrightarrow> weight ! k \<le> int w \<Longrightarrow> k < length value" using k by (rule vl)
    show "0 \<le> weight ! k" using k by (rule nn)
    show "length (?dpk ! k) = C" by (simp only: rk) simp
    show "length (?dpk ! Suc k) = C" by (simp only: rs) simp
    show "C \<le> C" by simp
  qed
  also have "map (cell_of weight value k (?dpk ! k)) [0..<C] @ drop C (?dpk ! Suc k) = ?T (Suc k)"
    using knap_T_row [OF nn [OF k], of "value" C] by (simp only: rk rs) simp
  also have "?dpk[Suc k := ?T (Suc k)]
      = map ?T [0..<Suc k + 1] @ replicate (?n - Suc k) (replicate C 0)"
  proof (rule nth_equalityI)
    show "length (?dpk[Suc k := ?T (Suc k)])
        = length (map ?T [0..<Suc k + 1] @ replicate (?n - Suc k) (replicate C 0))"
      using k by simp
  next
    fix j assume "j < length (?dpk[Suc k := ?T (Suc k)])"
    then have j: "j < ?n + 1" using k by simp
    consider "j < Suc k" | "j = Suc k" | "Suc k < j" by linarith
    then show "?dpk[Suc k := ?T (Suc k)] ! j
        = (map ?T [0..<Suc k + 1] @ replicate (?n - Suc k) (replicate C 0)) ! j"
    proof cases
      case 1
      then show ?thesis using k by (simp add: nth_append del: upt_Suc)
    next
      case 2
      then show ?thesis using k by (simp add: nth_append del: upt_Suc)
    next
      case 3
      then show ?thesis using k j by (simp add: nth_append del: upt_Suc)
    qed
  qed
  finally have step: "foldM (dp_cell weight value (Suc k)) [0..<C] ?dpk
      = Inr (map ?T [0..<Suc k + 1] @ replicate (?n - Suc k) (replicate C 0))" .
  have "[1..<Suc k + 1] = [1..<k + 1] @ [Suc k]" by simp
  then have "foldM (\<lambda>i. foldM (dp_cell weight value i) [0..<C]) [1..<Suc k + 1]
        (replicate (?n + 1) (replicate C 0))
      = ebind (foldM (dp_cell weight value (Suc k)) [0..<C] ?dpk) Inr"
    by (simp only: foldM_append ih ebind_Inr foldM.simps foldM_Nil_fun)
  then show ?case by (simp only: step ebind_Inr)
qed

lemma build_knapsack_dp_table_eq:
  assumes "\<And>j w. j < length weight \<Longrightarrow> w < nat (W + 1) \<Longrightarrow> weight ! j \<le> int w
      \<Longrightarrow> j < length value"
    and "\<And>j. j < length weight \<Longrightarrow> 0 \<le> weight ! j"
  shows "build_knapsack_dp_table weight value W
       = Inr (map (\<lambda>r. map (knap_T weight value r) [0..<nat (W + 1)]) [0..<length weight + 1])"
  using table_rows [of weight "nat (W + 1)" "value" "length weight"] assms
  by (simp add: build_knapsack_dp_table_def Let_def)

subsection \<open>The table holds the optimum\<close>

lemma finite_feasible: "finite A \<Longrightarrow> finite (feasible weight A c)"
  by (simp add: feasible_def)

lemma empty_feasible: "0 \<le> c \<Longrightarrow> {} \<in> feasible weight A c"
  by (simp add: feasible_def)

lemma feasible_insert:
  assumes j: "j \<notin> A" and fin: "finite A" and nn: "\<And>k. k \<in> insert j A \<Longrightarrow> 0 \<le> weight ! k"
  shows "feasible weight (insert j A) c =
     feasible weight A c
       \<union> (if weight ! j \<le> c then insert j ` feasible weight A (c - weight ! j) else {})"
proof (rule set_eqI)
  fix S
  show "S \<in> feasible weight (insert j A) c \<longleftrightarrow>
        S \<in> feasible weight A c
          \<union> (if weight ! j \<le> c then insert j ` feasible weight A (c - weight ! j) else {})"
  proof (cases "j \<in> S")
    case False
    then have "S \<subseteq> insert j A \<longleftrightarrow> S \<subseteq> A" by auto
    moreover have "S \<notin> insert j ` X" for X using False by auto
    ultimately show ?thesis by (simp add: feasible_def)
  next
    case True
    define R where "R = S - {j}"
    have S: "S = insert j R" and jR: "j \<notin> R" using True by (auto simp: R_def)
    show ?thesis
    proof (cases "S \<subseteq> insert j A")
      case sub: True
      then have RA: "R \<subseteq> A" by (auto simp: R_def)
      then have fR: "finite R" using fin by (rule finite_subset)
      have sum: "(\<Sum>k\<in>S. weight ! k) = weight ! j + (\<Sum>k\<in>R. weight ! k)"
        using fR jR by (simp add: S)
      have "0 \<le> (\<Sum>k\<in>R. weight ! k)" using RA nn by (intro sum_nonneg) auto
      then have le: "(\<Sum>k\<in>S. weight ! k) \<le> c \<Longrightarrow> weight ! j \<le> c" using sum by simp
      have notA: "S \<notin> feasible weight A c" using True j by (auto simp: feasible_def)
      have img: "S \<in> insert j ` feasible weight A (c - weight ! j)
          \<longleftrightarrow> (\<Sum>k\<in>R. weight ! k) \<le> c - weight ! j"
      proof
        assume "S \<in> insert j ` feasible weight A (c - weight ! j)"
        then obtain R' where R': "S = insert j R'" "R' \<in> feasible weight A (c - weight ! j)"
          by auto
        then have "j \<notin> R'" using j by (auto simp: feasible_def)
        then have "R' = R" using R'(1) by (auto simp: R_def)
        then show "(\<Sum>k\<in>R. weight ! k) \<le> c - weight ! j" using R'(2) by (simp add: feasible_def)
      next
        assume "(\<Sum>k\<in>R. weight ! k) \<le> c - weight ! j"
        then have "R \<in> feasible weight A (c - weight ! j)" using RA by (simp add: feasible_def)
        then show "S \<in> insert j ` feasible weight A (c - weight ! j)" using S by blast
      qed
      have "S \<in> feasible weight (insert j A) c \<longleftrightarrow> (\<Sum>k\<in>S. weight ! k) \<le> c"
        using sub by (simp add: feasible_def)
      then show ?thesis using notA img le sum by auto
    next
      case nsub: False
      then have "S \<notin> feasible weight (insert j A) c" by (simp add: feasible_def)
      moreover have "S \<notin> feasible weight A c" using nsub by (auto simp: feasible_def)
      moreover have "S \<notin> insert j ` feasible weight A (c - weight ! j)"
        using nsub by (auto simp: feasible_def)
      ultimately show ?thesis by simp
    qed
  qed
qed

lemma value_image_insert:
  assumes j: "j \<notin> A" and fin: "finite A"
  shows "(\<lambda>S. \<Sum>k\<in>S. value ! k) ` insert j ` feasible weight A c
       = (\<lambda>S. (\<Sum>k\<in>S. value ! k) + value ! j) ` feasible weight A c"
proof -
  have "(\<Sum>k\<in>insert j S. value ! k) = (\<Sum>k\<in>S. value ! k) + value ! j"
    if "S \<in> feasible weight A c" for S
  proof -
    have "S \<subseteq> A" using that by (simp add: feasible_def)
    then have "finite S" "j \<notin> S" using fin j by (auto intro: finite_subset)
    then show ?thesis by (simp add: add.commute)
  qed
  then show ?thesis by (simp add: image_image)
qed

lemma best_insert:
  assumes j: "j \<notin> A" and fin: "finite A" and nn: "\<And>k. k \<in> insert j A \<Longrightarrow> 0 \<le> weight ! k"
    and c: "0 \<le> c"
  shows "best weight value (insert j A) c =
     (if weight ! j \<le> c
      then max (best weight value A c) (best weight value A (c - weight ! j) + value ! j)
      else best weight value A c)"
proof (cases "weight ! j \<le> c")
  case False
  have "feasible weight (insert j A) c =
     feasible weight A c
       \<union> (if weight ! j \<le> c then insert j ` feasible weight A (c - weight ! j) else {})"
    using j fin nn by (rule feasible_insert)
  then show ?thesis using False by (simp add: best_def)
next
  case True
  let ?f = "\<lambda>S. \<Sum>k\<in>S. value ! k"
  have fi: "feasible weight (insert j A) c =
     feasible weight A c
       \<union> (if weight ! j \<le> c then insert j ` feasible weight A (c - weight ! j) else {})"
    using j fin nn by (rule feasible_insert)
  have c': "0 \<le> c - weight ! j" using True by simp
  have "?f ` feasible weight (insert j A) c
      = ?f ` feasible weight A c \<union> ?f ` insert j ` feasible weight A (c - weight ! j)"
    using True by (simp add: fi image_Un)
  moreover have "Max (?f ` feasible weight A c \<union> ?f ` insert j ` feasible weight A (c - weight ! j))
      = max (Max (?f ` feasible weight A c)) (Max (?f ` insert j ` feasible weight A (c - weight ! j)))"
    using empty_feasible [OF c, of weight A] empty_feasible [OF c', of weight A]
    by (intro Max_Un) (auto simp: finite_feasible fin)
  moreover have "Max (?f ` insert j ` feasible weight A (c - weight ! j))
      = Max (?f ` feasible weight A (c - weight ! j)) + value ! j"
    unfolding value_image_insert [OF j fin]
    using empty_feasible [OF c', of weight A]
    by (intro Max_add_commute) (auto simp: finite_feasible fin)
  ultimately show ?thesis using True by (simp add: best_def)
qed

lemma best_empty: "0 \<le> c \<Longrightarrow> best weight value {} c = 0"
  by (simp add: best_def feasible_def)

lemma knap_T_best:
  assumes nn: "\<And>j. j < length weight \<Longrightarrow> 0 \<le> weight ! j"
  shows "i \<le> length weight \<Longrightarrow> knap_T weight value i w = best weight value {..<i} (int w)"
proof (induction i arbitrary: w)
  case 0
  then show ?case by (simp add: best_empty)
next
  case (Suc i)
  have ins: "{..<Suc i} = insert i {..<i}" by auto
  have b: "best weight value (insert i {..<i}) (int w) =
     (if weight ! i \<le> int w
      then max (best weight value {..<i} (int w))
               (best weight value {..<i} (int w - weight ! i) + value ! i)
      else best weight value {..<i} (int w))"
    using Suc.prems by (intro best_insert) (auto intro: nn)
  show ?case
  proof (cases "weight ! i \<le> int w")
    case True
    then have "int (nat (int w - weight ! i)) = int w - weight ! i" by simp
    then show ?thesis
      using True Suc.IH [of w] Suc.IH [of "nat (int w - weight ! i)"] Suc.prems
      by (simp add: ins b)
  next
    case False
    then show ?thesis using Suc.IH [of w] Suc.prems by (simp add: ins b)
  qed
qed

lemma leaf_values_rec:
  "leaf_values weight value i w v =
     (if length weight \<le> i then [v]
      else leaf_values weight value (Suc i) w v
             @ (if weight ! i \<le> w
                then leaf_values weight value (Suc i) (w - weight ! i) (v + value ! i)
                else []))"
  unfolding leaf_values_def by (subst kn_preorder.simps) simp

lemma leaf_values_feasible:
  assumes nn: "\<And>j. j < length weight \<Longrightarrow> 0 \<le> weight ! j"
  shows "0 \<le> w \<Longrightarrow>
     set (leaf_values weight value i w v)
       = (\<lambda>S. v + (\<Sum>k\<in>S. value ! k)) ` feasible weight {i..<length weight} w"
  using nn
proof (induction weight "value" i w v rule: kn_preorder.induct)
  case (1 weight "value" i w v)
  show ?case
  proof (cases "length weight \<le> i")
    case True
    then have "feasible weight {i..<length weight} w = {{}}"
      using 1(3) by (auto simp: feasible_def)
    then show ?thesis using True by (subst leaf_values_rec) simp
  next
    case False
    let ?n = "length weight"
    have ins: "{i..<?n} = insert i {Suc i..<?n}" using False by auto
    have ih1: "0 \<le> w \<Longrightarrow> set (leaf_values weight value (Suc i) w v)
        = (\<lambda>S. v + (\<Sum>k\<in>S. value ! k)) ` feasible weight {Suc i..<?n} w"
      using 1(1) [OF False] 1(4) by simp
    have ih2: "weight ! i \<le> w \<Longrightarrow> 0 \<le> w - weight ! i \<Longrightarrow>
        set (leaf_values weight value (Suc i) (w - weight ! i) (v + value ! i))
        = (\<lambda>S. v + value ! i + (\<Sum>k\<in>S. value ! k)) ` feasible weight {Suc i..<?n} (w - weight ! i)"
      using 1(2) [OF False] 1(4) by simp
    have fi: "feasible weight (insert i {Suc i..<?n}) w =
       feasible weight {Suc i..<?n} w
         \<union> (if weight ! i \<le> w then insert i ` feasible weight {Suc i..<?n} (w - weight ! i) else {})"
      using False by (intro feasible_insert) (auto intro: 1(4))
    have sk: "set (leaf_values weight value (Suc i) w v)
        = (\<lambda>S. v + (\<Sum>k\<in>S. value ! k)) ` feasible weight {Suc i..<?n} w"
      using 1(3) by (rule ih1)
    show ?thesis
    proof (cases "weight ! i \<le> w")
      case True
      have pk: "set (leaf_values weight value (Suc i) (w - weight ! i) (v + value ! i))
          = (\<lambda>S. v + value ! i + (\<Sum>k\<in>S. value ! k)) ` feasible weight {Suc i..<?n} (w - weight ! i)"
        using True by (intro ih2) simp_all
      have "(\<Sum>k\<in>insert i S. value ! k) = value ! i + (\<Sum>k\<in>S. value ! k)"
        if "S \<in> feasible weight {Suc i..<?n} (w - weight ! i)" for S
      proof -
        have "S \<subseteq> {Suc i..<?n}" using that by (simp add: feasible_def)
        then have "finite S" "i \<notin> S" by (auto intro: finite_subset)
        then show ?thesis by simp
      qed
      then have im: "(\<lambda>S. v + (\<Sum>k\<in>S. value ! k)) ` insert i ` feasible weight {Suc i..<?n} (w - weight ! i)
          = (\<lambda>S. v + value ! i + (\<Sum>k\<in>S. value ! k)) ` feasible weight {Suc i..<?n} (w - weight ! i)"
        by (simp add: image_image add.assoc)
      show ?thesis
        using False True
        by (subst leaf_values_rec) (simp add: ins fi sk pk im image_Un del: atLeastLessThan_iff)
    next
      case F2: False
      show ?thesis
        using False F2 by (subst leaf_values_rec) (simp add: ins fi sk)
    qed
  qed
qed

text \<open>
  Claim C6, for lists of the same length, weights that are not negative and a capacity
  that is not negative: the table is built, its entry \<open>T[n][W]\<close> is the optimum over all
  sets of items within the capacity, the depth-first run returns with the pre-order
  trace, and the optimum is the largest accumulated value among the terminal states of
  that run.  For weights \<open>[2,3,4]\<close>, values \<open>[3,4,5]\<close> and capacity 5, \<open>T[3][5] = 7\<close>.
\<close>

theorem dp_table_optimum:
  assumes "length weight = length value" and "\<forall>x\<in>set weight. 0 \<le> x" and "0 \<le> W"
  shows "(\<exists>dp r. build_knapsack_dp_table weight value W = Inr dp
            \<and> py_get2 dp (int (length weight)) W = Inr (knapsack_opt weight value W)
            \<and> run_knapsack_dfs weight value W = Inr r
            \<and> trace r = assign_ids Map.empty
                 (map (\<lambda>(i, w, v). kn_label i w v) (kn_preorder weight value 0 W 0))
            \<and> knapsack_opt weight value W = Max (set (leaf_values weight value 0 W 0)))
       \<and> dp_table_entry [2, 3, 4] [3, 4, 5] 5 3 5 = Inr 7"
proof -
  let ?n = "length weight"
  let ?dp = "map (\<lambda>r. map (knap_T weight value r) [0..<nat (W + 1)]) [0..<?n + 1]"
  have nn: "\<And>j. j < ?n \<Longrightarrow> 0 \<le> weight ! j" using assms(2) by simp
  have tab: "build_knapsack_dp_table weight value W = Inr ?dp"
    using assms(1) nn by (intro build_knapsack_dp_table_eq) simp_all
  have row: "?dp ! ?n = map (knap_T weight value ?n) [0..<nat (W + 1)]"
    by (simp add: nth_append del: upt_Suc)
  have "py_get2 ?dp (int ?n) W = Inr (?dp ! ?n ! nat W)"
    using assms(3) by (intro py_get2_in) (simp_all only: row, simp_all)
  also have "?dp ! ?n ! nat W = knap_T weight value ?n (nat W)"
    using assms(3) by (simp only: row) simp
  also have "\<dots> = knapsack_opt weight value W"
    using knap_T_best [OF nn, of ?n "value" "nat W"] assms(3) by (simp add: knapsack_opt_def)
  finally have cell: "py_get2 ?dp (int ?n) W = Inr (knapsack_opt weight value W)" .
  let ?r = "walk (\<lambda>u s. s) (kn_tree weight value 0 W 0) None [] dfs_init"
  have run: "run_knapsack_dfs weight value W = Inr ?r"
    using assms(1) by (rule run_knapsack_dfs_walk)
  have tr: "trace ?r = assign_ids Map.empty
      (map (\<lambda>(i, w, v). kn_label i w v) (kn_preorder weight value 0 W 0))"
    using walk_trace_counter [of "\<lambda>u s. s" "kn_tree weight value 0 W 0" None "[]" dfs_init]
    by (simp add: dfs_init_def labels_kn_tree)
  have "set (leaf_values weight value 0 W 0)
      = (\<lambda>S. 0 + (\<Sum>k\<in>S. value ! k)) ` feasible weight {0..<?n} W"
    using nn assms(3) by (intro leaf_values_feasible) simp_all
  then have mx: "knapsack_opt weight value W = Max (set (leaf_values weight value 0 W 0))"
    by (simp add: knapsack_opt_def best_def atLeast0LessThan)
  have ex: "dp_table_entry [2, 3, 4] [3, 4, 5] 5 3 5 = Inr 7"
    by code_simp
  show ?thesis using tab cell run tr mx ex by blast
qed

theorem dp_table_optimum_witness:
  "length [2, 3, 4 :: int] = length [3, 4, 5 :: int] \<and> (0 :: int) \<le> 5
   \<and> (\<exists>dp. build_knapsack_dp_table [2, 3, 4] [3, 4, 5] 5 = Inr dp \<and> py_get2 dp 3 5 = Inr 7)
   \<and> knapsack_opt [2, 3, 4] [3, 4, 5] 5 = 7
   \<and> Max (set (leaf_values [2, 3, 4] [3, 4, 5] 0 5 0)) = 7"
proof -
  have m: "Max (set (leaf_values [2, 3, 4] [3, 4, 5] 0 5 0)) = 7" by code_simp
  have "\<forall>x\<in>set [2, 3, 4 :: int]. 0 \<le> x" by simp
  then show ?thesis using dp_table_optimum [of "[2, 3, 4]" "[3, 4, 5]" 5] m by auto
qed

text \<open>
  Claim C6 as stated covers every validated input.  With the weight \<open>-1\<close> the table
  builder reads row 0 at column 1 of a one-column table and raises, while the
  depth-first run reaches the value 1; with the capacity \<open>-1\<close> the rows of the table are
  empty and there is no entry \<open>T[n][W]\<close>.
\<close>

theorem dp_table_counterexample:
  "build_knapsack_dp_table [- 1] [1] 0 = Inl IndexError
   \<and> Max (set (leaf_values [- 1] [1] 0 0 0)) = 1
   \<and> dp_table_entry [1] [1] (- 1) 1 (- 1) = Inl IndexError"
  by code_simp

subsection \<open>Edge labels\<close>

lemma set_update_subset: "set (AList.update k v al) \<subseteq> insert (k, v) (set al)"
  by (induction al) auto

lemma visit_edge_labels:
  "snd ` snd ` set (parent_map (snd (visit l p e st)))
     \<subseteq> (if p = None then {} else {e}) \<union> snd ` snd ` set (parent_map st)"
proof (cases p)
  case None
  then show ?thesis by (auto simp: visit_parent_map)
next
  case (Some q)
  have "set (parent_map (snd (visit l p e st)))
      \<subseteq> insert (fst (visit l p e st), (q, e)) (set (parent_map st))"
    using Some set_update_subset [of "fst (visit l p e st)" "(q, e)" "parent_map st"]
    by (simp add: visit_parent_map)
  then show ?thesis using Some by force
qed

lemma walk_edge_labels:
  fixes st :: "'a dfs_state_scheme"
  assumes h: "\<And>u (s :: 'a dfs_state_scheme). parent_map (h u s) = parent_map s"
  shows "snd ` snd ` set (parent_map (walk h t p e st))
     \<subseteq> (if p = None then {} else {e}) \<union> snd ` snd ` set (parent_map st) \<union> set (edge_labels t)"
proof (induction t arbitrary: p e st)
  case (Leaf l g)
  show ?case using visit_edge_labels [of l p e st]
    by (auto simp add: walk_Leaf h simp del: walk.simps split: if_splits)
next
  case (Node1 l e1 t1)
  let ?u = "fst (visit l p e st)"
  let ?st1 = "snd (visit l p e st)"
  define P where "P = (if p = None then {} else {e})"
  define A where "A = snd ` snd ` set (parent_map st)"
  define B where "B = snd ` snd ` set (parent_map ?st1)"
  define C where "C = snd ` snd ` set (parent_map (walk h t1 (Some ?u) e1 ?st1))"
  have "B \<subseteq> P \<union> A" unfolding A_def B_def P_def by (rule visit_edge_labels)
  moreover have "C \<subseteq> (if Some ?u = None then {} else {e1}) \<union> B \<union> set (edge_labels t1)"
    unfolding B_def C_def by (rule Node1.IH)
  ultimately have "C \<subseteq> P \<union> A \<union> set (e1 # edge_labels t1)" by auto
  then show ?case by (simp only: walk_Node1 edge_labels.simps A_def C_def P_def)
next
  case (Node2 l e1 t1 e2 t2)
  let ?u = "fst (visit l p e st)"
  let ?st1 = "snd (visit l p e st)"
  let ?st2 = "walk h t1 (Some ?u) e1 ?st1"
  define P where "P = (if p = None then {} else {e})"
  define A where "A = snd ` snd ` set (parent_map st)"
  define B where "B = snd ` snd ` set (parent_map ?st1)"
  define C where "C = snd ` snd ` set (parent_map ?st2)"
  define D where "D = snd ` snd ` set (parent_map (walk h t2 (Some ?u) e2 ?st2))"
  have "B \<subseteq> P \<union> A" unfolding A_def B_def P_def by (rule visit_edge_labels)
  moreover have "C \<subseteq> (if Some ?u = None then {} else {e1}) \<union> B \<union> set (edge_labels t1)"
    unfolding B_def C_def by (rule Node2.IH(1))
  moreover have "D \<subseteq> (if Some ?u = None then {} else {e2}) \<union> C \<union> set (edge_labels t2)"
    unfolding C_def D_def by (rule Node2.IH(2))
  ultimately have "D \<subseteq> P \<union> A \<union> set (e1 # edge_labels t1 @ e2 # edge_labels t2)" by auto
  then show ?case by (simp only: walk_Node2 edge_labels.simps A_def D_def P_def)
qed

lemma kn_dfs_walk_no_pick:
  "(\<And>j. j < length weight \<Longrightarrow> w < weight ! j) \<Longrightarrow>
   kn_dfs weight value i w v p e st = Inr (walk (\<lambda>u s. s) (kn_tree weight value i w v) p e st)"
proof (induction weight "value" i w v arbitrary: p e st rule: kn_tree.induct)
  case (1 weight "value" i w v)
  show ?case
  proof (cases "length weight \<le> i")
    case True
    then show ?thesis
      by (subst kn_dfs.simps, subst kn_tree.simps) (simp add: case_prod_beta)
  next
    case False
    then have F2: "\<not> weight ! i \<le> w" using 1(4) [of i] by simp
    show ?thesis
      using False F2 1(3) [OF False F2 1(4)]
      by (subst kn_dfs.simps, subst kn_tree.simps) (simp add: case_prod_beta py_get_def)
  qed
qed

lemma kn_tree_no_pick:
  "(\<And>j. j < length weight \<Longrightarrow> w < weight ! j) \<Longrightarrow>
   set (edge_labels (kn_tree weight value i w v)) \<subseteq> range kn_skip_label"
proof (induction weight "value" i w v rule: kn_tree.induct)
  case (1 weight "value" i w v)
  show ?case
  proof (cases "length weight \<le> i")
    case True
    then show ?thesis by (subst kn_tree.simps) simp
  next
    case False
    then have F2: "\<not> weight ! i \<le> w" using 1(4) [of i] by simp
    show ?thesis
      using False F2 1(3) [OF False F2 1(4)] by (subst kn_tree.simps) simp
  qed
qed

lemma kn_skip_not_pick: "kn_skip_label j \<noteq> kn_pick_label i"
  by (simp add: kn_skip_label_def kn_pick_label_def)

lemma dp_skip_not_pick: "dp_skip_label j \<noteq> dp_pick_label i"
  by (simp add: dp_skip_label_def dp_pick_label_def)

lemma g_edges_fold_label:
  "g_edges (fold (\<lambda>(c, (p, l)). add_edge p c l) pm G) k = Some l
   \<Longrightarrow> l \<in> snd ` snd ` set pm \<or> g_edges G k = Some l"
proof (induction pm arbitrary: G)
  case Nil
  then show ?case by simp
next
  case (Cons a pm)
  obtain c0 p0 l0 where a: "a = (c0, (p0, l0))" by (cases a) auto
  from Cons.prems have "l \<in> snd ` snd ` set pm \<or> g_edges (add_edge p0 c0 l0 G) k = Some l"
    by (intro Cons.IH) (simp add: a)
  then show ?case by (auto simp: a add_edge_def split: if_splits)
qed

lemma graph_of_trace_labels:
  "g_edges (graph_of_trace tr pm) k = Some l \<Longrightarrow> l \<in> snd ` snd ` set pm"
  using g_edges_fold_label [of pm "fold (\<lambda>nid. add_node nid (display_label nid)) tr DiGraph" k l]
  by (simp add: graph_of_trace_def g_edges_add_nodes DiGraph_def)

lemma dfs_no_pick:
  assumes "\<And>j. j < length weight \<Longrightarrow> W < weight ! j"
  shows "\<exists>r. run_knapsack_dfs weight value W = Inr r
       \<and> snd ` snd ` set (parent_map r) \<subseteq> range kn_skip_label"
proof -
  let ?r = "walk (\<lambda>u s. s) (kn_tree weight value 0 W 0) None [] dfs_init"
  have "run_knapsack_dfs weight value W = Inr ?r"
    using assms by (simp add: run_knapsack_dfs_def kn_dfs_walk_no_pick)
  moreover have "snd ` snd ` set (parent_map ?r)
      \<subseteq> (if (None :: string option) = None then {} else {[]})
          \<union> snd ` snd ` set (parent_map dfs_init) \<union> set (edge_labels (kn_tree weight value 0 W 0))"
    by (rule walk_edge_labels) simp
  moreover have "set (edge_labels (kn_tree weight value 0 W 0)) \<subseteq> range kn_skip_label"
    using assms by (rule kn_tree_no_pick)
  ultimately show ?thesis by (auto simp: dfs_init_def)
qed

subsection \<open>The graph of the table\<close>

lemma foldM_invariant:
  assumes "P s" and "\<And>x s. x \<in> set xs \<Longrightarrow> P s \<Longrightarrow> \<exists>s'. f x s = Inr s' \<and> P s'"
  shows "\<exists>s'. foldM f xs s = Inr s' \<and> P s'"
  using assms
proof (induction xs arbitrary: s)
  case Nil
  then show ?case by simp
next
  case (Cons x xs)
  obtain s1 where s1: "f x s = Inr s1" "P s1" using Cons.prems by fastforce
  have "\<exists>s'. foldM f xs s1 = Inr s' \<and> P s'"
    using s1(2) Cons.prems(2) by (intro Cons.IH) auto
  then show ?case using s1(1) by simp
qed

lemma get_node_id_graph: "dpg_graph (snd (get_node_id i w st)) = dpg_graph st"
  by (simp add: get_node_id_def split: option.splits)

lemma dp_node_step_total:
  assumes "i < length dp" "w < length (dp ! i)"
  shows "\<exists>st'. dp_node_step dp i w st = Inr st'
       \<and> g_edges (dpg_graph st') = g_edges (dpg_graph st)"
proof -
  have "py_get2 dp (int i) (int w) = Inr (dp ! i ! w)"
    using py_get2_in [of i dp "int w"] assms by simp
  then show ?thesis
    by (simp add: dp_node_step_def case_prod_beta add_node_def get_node_id_graph)
qed

lemma dp_edge_step_total:
  assumes i: "Suc i < length dp" and w: "w < length (dp ! i)" "w < length (dp ! Suc i)"
    and wt: "i < length weight" and nn: "0 \<le> weight ! i"
    and vl: "weight ! i \<le> int w \<Longrightarrow> i < length value"
  shows "\<exists>st'. dp_edge_step dp weight value i w st = Inr st'
       \<and> (\<forall>k l. g_edges (dpg_graph st') k = Some l \<longrightarrow>
             g_edges (dpg_graph st) k = Some l \<or> l = dp_skip_label i
             \<or> (weight ! i \<le> int w \<and> l = dp_pick_label i))"
proof -
  have i': "i < length dp" using i by simp
  have g1: "py_get2 dp (int i) (int w) = Inr (dp ! i ! w)"
    using py_get2_in [OF i', of "int w"] w by simp
  have g2: "py_get2 dp (int i + 1) (int w) = Inr (dp ! Suc i ! w)"
    using py_get2_in [OF i, of "int w"] w by (simp add: add.commute)
  have g3: "py_get weight (int i) = Inr (weight ! i)" using wt by (simp add: py_get_in)
  show ?thesis
  proof (cases "weight ! i \<le> int w")
    case False
    show ?thesis
      unfolding dp_edge_step_def
      by (simp only: g1 g2 g3 ebind_Inr False if_False)
         (auto simp add: case_prod_beta add_edge_def get_node_id_graph ebind_def)
  next
    case True
    have g4: "py_get2 dp (int i) (int w - weight ! i) = Inr (dp ! i ! nat (int w - weight ! i))"
      using True nn w by (intro py_get2_in [OF i']) simp_all
    have g5: "py_get value (int i) = Inr (value ! i)" using vl [OF True] by (simp add: py_get_in)
    show ?thesis
      unfolding dp_edge_step_def
      by (simp only: g1 g2 g3 g4 g5 ebind_Inr True if_True Let_def)
         (auto simp add: case_prod_beta add_edge_def get_node_id_graph ebind_def)
  qed
qed

lemma dp_edge_step_ok:
  assumes i: "Suc i < length dp" and w: "w < length (dp ! i)" "w < length (dp ! Suc i)"
    and wt: "i < length weight" and nn: "0 \<le> weight ! i"
    and vl: "weight ! i \<le> int w \<Longrightarrow> i < length value"
    and C: "w < C" and ok: "edge_labels_ok weight C (dpg_graph st)"
  shows "\<exists>st'. dp_edge_step dp weight value i w st = Inr st'
       \<and> edge_labels_ok weight C (dpg_graph st')"
proof -
  obtain st' where st': "dp_edge_step dp weight value i w st = Inr st'"
    "\<And>k l. g_edges (dpg_graph st') k = Some l \<Longrightarrow>
             g_edges (dpg_graph st) k = Some l \<or> l = dp_skip_label i
             \<or> (weight ! i \<le> int w \<and> l = dp_pick_label i)"
    using dp_edge_step_total [OF i w wt nn vl, of st] by blast
  have "edge_labels_ok weight C (dpg_graph st')"
    unfolding edge_labels_ok_def
  proof (intro allI impI)
    fix k l assume "g_edges (dpg_graph st') k = Some l"
    then consider "g_edges (dpg_graph st) k = Some l" | "l = dp_skip_label i"
      | "weight ! i \<le> int w" "l = dp_pick_label i"
      using st'(2) by blast
    then show "(\<exists>i. l = dp_skip_label i)
        \<or> (\<exists>i w. i < length weight \<and> w < C \<and> weight ! i \<le> int w \<and> l = dp_pick_label i)"
    proof cases
      case 1
      then show ?thesis using ok unfolding edge_labels_ok_def by blast
    next
      case 2
      then show ?thesis by blast
    next
      case 3
      then show ?thesis using wt C by blast
    qed
  qed
  with st'(1) show ?thesis by blast
qed

lemma build_dp_graph_state_ok:
  assumes len: "length dp = length weight + 1"
    and rows: "\<And>r. r \<le> length weight \<Longrightarrow> length (dp ! r) = C"
    and nn: "\<And>j. j < length weight \<Longrightarrow> 0 \<le> weight ! j"
    and vl: "\<And>j w. j < length weight \<Longrightarrow> w < C \<Longrightarrow> weight ! j \<le> int w \<Longrightarrow> j < length value"
  shows "\<exists>st. build_dp_graph_state dp weight value = Inr st
       \<and> edge_labels_ok weight C (dpg_graph st)"
proof -
  let ?n = "length weight"
  let ?st0 = "\<lparr>dpg_graph = DiGraph, dpg_id_map = Map.empty, dpg_counter = 0\<rparr>"
  let ?E = "\<lambda>st :: dpg_state. g_edges (dpg_graph st) = (Map.empty :: nat \<times> nat \<rightharpoonup> string)"
  have g0: "py_get dp 0 = Inr (dp ! 0)" using len by (simp add: py_get_def)
  have r0: "length (dp ! 0) = C" by (rule rows) simp
  have "\<exists>st1. foldM (\<lambda>i. foldM (dp_node_step dp i) [0..<C]) [0..<?n + 1] ?st0 = Inr st1 \<and> ?E st1"
  proof (rule foldM_invariant)
    show "?E ?st0" by (simp add: DiGraph_def)
  next
    fix i st assume i: "i \<in> set [0..<?n + 1]" and E: "?E st"
    show "\<exists>st'. foldM (dp_node_step dp i) [0..<C] st = Inr st' \<and> ?E st'"
    proof (rule foldM_invariant)
      show "?E st" by (rule E)
    next
      fix w st2 assume w: "w \<in> set [0..<C]" and E2: "?E st2"
      have "i < length dp" using i len by auto
      moreover have "w < length (dp ! i)" using w rows [of i] i by auto
      ultimately show "\<exists>st'. dp_node_step dp i w st2 = Inr st' \<and> ?E st'"
        using dp_node_step_total [of i dp w st2] E2 by auto
    qed
  qed
  then obtain st1 where st1:
    "foldM (\<lambda>i. foldM (dp_node_step dp i) [0..<C]) [0..<?n + 1] ?st0 = Inr st1" "?E st1"
    by blast
  have ok1: "edge_labels_ok weight C (dpg_graph st1)"
    using st1(2) by (simp add: edge_labels_ok_def)
  have "\<exists>st2. foldM (\<lambda>i. foldM (dp_edge_step dp weight value i) [0..<C]) [0..<?n] st1 = Inr st2
      \<and> edge_labels_ok weight C (dpg_graph st2)"
  proof (rule foldM_invariant)
    show "edge_labels_ok weight C (dpg_graph st1)" by (rule ok1)
  next
    fix i and st :: dpg_state
    assume i: "i \<in> set [0..<?n]" and ok: "edge_labels_ok weight C (dpg_graph st)"
    show "\<exists>st'. foldM (dp_edge_step dp weight value i) [0..<C] st = Inr st'
        \<and> edge_labels_ok weight C (dpg_graph st')"
    proof (rule foldM_invariant)
      show "edge_labels_ok weight C (dpg_graph st)" by (rule ok)
    next
      fix w and st2 :: dpg_state
      assume w: "w \<in> set [0..<C]" and ok2: "edge_labels_ok weight C (dpg_graph st2)"
      have i': "i < ?n" using i by simp
      have w': "w < C" using w by simp
      show "\<exists>st'. dp_edge_step dp weight value i w st2 = Inr st'
          \<and> edge_labels_ok weight C (dpg_graph st')"
      proof (rule dp_edge_step_ok)
        show "Suc i < length dp" using i' len by simp
        show "w < length (dp ! i)" using w' rows [of i] i' by simp
        show "w < length (dp ! Suc i)" using w' rows [of "Suc i"] i' by simp
        show "i < length weight" by (rule i')
        show "0 \<le> weight ! i" using i' by (rule nn)
        show "weight ! i \<le> int w \<Longrightarrow> i < length value" using i' w' by (rule vl)
        show "w < C" by (rule w')
        show "edge_labels_ok weight C (dpg_graph st2)" by (rule ok2)
      qed
    qed
  qed
  then obtain st2 where st2:
    "foldM (\<lambda>i. foldM (dp_edge_step dp weight value i) [0..<C]) [0..<?n] st1 = Inr st2"
    "edge_labels_ok weight C (dpg_graph st2)"
    by blast
  have n1: "nat (int (?n + 1) - 1 + 1) = ?n + 1" and n2: "nat (int (?n + 1) - 1) = ?n"
    and c1: "nat (int C - 1 + 1) = C"
    by simp_all
  have "build_dp_graph_state dp weight value = Inr st2"
    unfolding build_dp_graph_state_def
    by (simp only: g0 ebind_Inr Let_def len r0 n1 n2 c1 st1(1) st2(1))
  then show ?thesis using st2(2) by blast
qed

lemma knapsack_dp_graph_ok:
  assumes vl: "\<And>j w. j < length weight \<Longrightarrow> w < nat (W + 1) \<Longrightarrow> weight ! j \<le> int w
      \<Longrightarrow> j < length value"
    and nn: "\<And>j. j < length weight \<Longrightarrow> 0 \<le> weight ! j"
  shows "\<exists>G. knapsack_dp_graph weight value W = Inr G \<and> edge_labels_ok weight (nat (W + 1)) G"
proof -
  let ?C = "nat (W + 1)"
  let ?dp = "map (\<lambda>r. map (knap_T weight value r) [0..<?C]) [0..<length weight + 1]"
  have tab: "build_knapsack_dp_table weight value W = Inr ?dp"
    using vl nn by (rule build_knapsack_dp_table_eq)
  have "\<exists>st. build_dp_graph_state ?dp weight value = Inr st
      \<and> edge_labels_ok weight ?C (dpg_graph st)"
  proof (rule build_dp_graph_state_ok)
    show "length ?dp = length weight + 1" by simp
    show "\<And>r. r \<le> length weight \<Longrightarrow> length (?dp ! r) = ?C"
      by (simp add: nth_append del: upt_Suc)
    show "\<And>j. j < length weight \<Longrightarrow> 0 \<le> weight ! j" by (rule nn)
    show "\<And>j w. j < length weight \<Longrightarrow> w < ?C \<Longrightarrow> weight ! j \<le> int w \<Longrightarrow> j < length value"
      by (rule vl)
  qed
  then show ?thesis
    by (auto simp add: knapsack_dp_graph_def build_dp_graph_def tab)
qed

text \<open>
  Claim C9, for weights that are all positive: with capacity 0 the depth-first run
  returns and neither its parent map nor the graph built from it has an edge labelled
  \<open>Pick item i\<close>; the table graph is built and has no edge labelled \<open>pick item i\<close>.
\<close>

theorem zero_capacity_no_pick:
  assumes "\<forall>x\<in>set weight. 0 < x"
  shows "(\<exists>r. run_knapsack_dfs weight value 0 = Inr r
            \<and> (\<forall>c p i. (c, (p, kn_pick_label i)) \<notin> set (parent_map r))
            \<and> (\<forall>k i. g_edges (kn_create_tree_graph_from_trace (trace r) (parent_map r)) k
                    \<noteq> Some (kn_pick_label i)))
       \<and> (\<exists>G. knapsack_dp_graph weight value 0 = Inr G
            \<and> (\<forall>k i. g_edges G k \<noteq> Some (dp_pick_label i)))"
proof -
  have pos: "\<And>j. j < length weight \<Longrightarrow> 0 < weight ! j" using assms by simp
  obtain r where r: "run_knapsack_dfs weight value 0 = Inr r"
    "snd ` snd ` set (parent_map r) \<subseteq> range kn_skip_label"
    using dfs_no_pick [of weight 0 "value"] pos by blast
  have a: "(c, (p, kn_pick_label i)) \<notin> set (parent_map r)" for c p i
  proof
    assume "(c, (p, kn_pick_label i)) \<in> set (parent_map r)"
    then have "kn_pick_label i \<in> snd ` snd ` set (parent_map r)" by force
    then have "kn_pick_label i \<in> range kn_skip_label" using r(2) by blast
    then obtain j where "kn_pick_label i = kn_skip_label j" by blast
    then show False using kn_skip_not_pick [of j i] by simp
  qed
  have b: "g_edges (kn_create_tree_graph_from_trace (trace r) (parent_map r)) k
      \<noteq> Some (kn_pick_label i)" for k i
  proof
    assume "g_edges (kn_create_tree_graph_from_trace (trace r) (parent_map r)) k
      = Some (kn_pick_label i)"
    then have "kn_pick_label i \<in> snd ` snd ` set (parent_map r)"
      unfolding kn_create_tree_graph_from_trace_def by (rule graph_of_trace_labels)
    then have "kn_pick_label i \<in> range kn_skip_label" using r(2) by blast
    then obtain j where "kn_pick_label i = kn_skip_label j" by blast
    then show False using kn_skip_not_pick [of j i] by simp
  qed
  have "\<exists>G. knapsack_dp_graph weight value 0 = Inr G \<and> edge_labels_ok weight (nat (0 + 1)) G"
  proof (rule knapsack_dp_graph_ok)
    show "\<And>j w. j < length weight \<Longrightarrow> w < nat (0 + 1) \<Longrightarrow> weight ! j \<le> int w
        \<Longrightarrow> j < length value"
      using pos by fastforce
    show "\<And>j. j < length weight \<Longrightarrow> 0 \<le> weight ! j" using pos by fastforce
  qed
  then obtain G where G: "knapsack_dp_graph weight value 0 = Inr G" "edge_labels_ok weight 1 G"
    by auto
  have c: "g_edges G k \<noteq> Some (dp_pick_label i)" for k i
  proof
    assume e: "g_edges G k = Some (dp_pick_label i)"
    then consider j where "dp_pick_label i = dp_skip_label j"
      | j w where "j < length weight" "w < 1" "weight ! j \<le> int w"
      using G(2) unfolding edge_labels_ok_def by blast
    then show False
    proof cases
      case 1
      then show ?thesis using dp_skip_not_pick [of j i] by simp
    next
      case 2
      then show ?thesis using pos [of j] by simp
    qed
  qed
  show ?thesis using r(1) a b G(1) c by blast
qed

theorem zero_capacity_no_pick_witness:
  "(\<exists>r. run_knapsack_dfs [2, 3] [3, 4] 0 = Inr r
            \<and> (\<forall>c p i. (c, (p, kn_pick_label i)) \<notin> set (parent_map r))
            \<and> (\<forall>k i. g_edges (kn_create_tree_graph_from_trace (trace r) (parent_map r)) k
                    \<noteq> Some (kn_pick_label i)))
       \<and> (\<exists>G. knapsack_dp_graph [2, 3] [3, 4] 0 = Inr G
            \<and> (\<forall>k i. g_edges G k \<noteq> Some (dp_pick_label i)))"
proof -
  have "\<forall>x\<in>set [2, 3 :: int]. 0 < x" by simp
  then show ?thesis by (rule zero_capacity_no_pick)
qed

text \<open>
  Claim C9 as stated covers every list of weights.  An item of weight 0 fits in
  capacity 0: on weights \<open>[0]\<close>, values \<open>[1]\<close> the depth-first run records the edge
  \<open>Pick item 0\<close> and the table graph has the edge \<open>pick item 0\<close> from node 0 to node 1.
\<close>

theorem zero_capacity_counterexample:
  "map_sum id parent_map (run_knapsack_dfs [0] [1] 0)
     = Inr [(''dp(1,0,0)_1'', ''dp(0,0,0)_1'', ''Skip item 0''),
            (''dp(1,0,1)_1'', ''dp(0,0,0)_1'', ''Pick item 0'')]
   \<and> dp_edge_label [0] [1] 0 0 1 = Inr (Some ''pick item 0'')"
  by code_simp

subsection \<open>The input boundary\<close>

lemma py_int_error: "py_int s = Inl e \<Longrightarrow> e = InputError"
  by (auto simp: py_int_def Let_def case_prod_beta split: if_splits)

lemma mapM_Inr_iff:
  "(\<exists>ys. mapM f xs = Inr ys) \<longleftrightarrow> (\<forall>x\<in>set xs. \<exists>y. f x = Inr y)"
proof (induction xs)
  case Nil
  then show ?case by simp
next
  case (Cons x xs)
  show ?case
  proof (cases "f x")
    case (Inl e)
    then show ?thesis by auto
  next
    case (Inr y)
    then show ?thesis using Cons.IH by (cases "mapM f xs") auto
  qed
qed

lemma mapM_Inl:
  "mapM f xs = Inl e \<Longrightarrow> \<exists>x\<in>set xs. f x = Inl e"
proof (induction xs)
  case Nil
  then show ?case by simp
next
  case (Cons x xs)
  show ?case
  proof (cases "f x")
    case (Inl e')
    then show ?thesis using Cons.prems by auto
  next
    case (Inr y)
    then show ?thesis using Cons by (cases "mapM f xs") auto
  qed
qed

lemma parse_int_list_error: "parse_int_list s = Inl e \<Longrightarrow> e = InputError"
  unfolding parse_int_list_def by (drule mapM_Inl) (auto dest: py_int_error)

lemma parse_int_list_fails_iff:
  "parse_int_list s = Inl InputError
     \<longleftrightarrow> (\<exists>t\<in>set (tokens s). py_int (strip t) = Inl InputError)"
proof
  assume "parse_int_list s = Inl InputError"
  then show "\<exists>t\<in>set (tokens s). py_int (strip t) = Inl InputError"
    unfolding parse_int_list_def by (rule mapM_Inl)
next
  assume "\<exists>t\<in>set (tokens s). py_int (strip t) = Inl InputError"
  then have "\<not> (\<forall>x\<in>set (tokens s). \<exists>y. py_int (strip x) = Inr y)" by force
  moreover have "(\<exists>ys. mapM (\<lambda>x. py_int (strip x)) (tokens s) = Inr ys)
      \<longleftrightarrow> (\<forall>x\<in>set (tokens s). \<exists>y. py_int (strip x) = Inr y)"
    by (rule mapM_Inr_iff)
  ultimately have "\<not> (\<exists>ys. parse_int_list s = Inr ys)"
    by (simp add: parse_int_list_def)
  then obtain e where "parse_int_list s = Inl e" by (cases "parse_int_list s") auto
  then show "parse_int_list s = Inl InputError" using parse_int_list_error by blast
qed

lemma knapsack_app_total:
  "length ws = length vs \<Longrightarrow> \<exists>r. run_knapsack_dfs ws vs W = Inr r"
  by (simp add: run_knapsack_dfs_walk)

lemma target_sum_total:
  "\<exists>r res. run_target_sum_dfs nums target = Inr r
     \<and> map_option (\<lambda>(G, H). (G, H, ways_count r))
          (ts_create_tree_graph_from_trace (trace r) (parent_map r) (valid_leaves r)) = Some res"
proof -
  obtain r G H where "run_target_sum_dfs nums target = Inr r"
    "ts_create_tree_graph_from_trace (trace r) (parent_map r) (valid_leaves r) = Some (G, H)"
    using ts_highlight_result [of nums target] by blast
  then show ?thesis by auto
qed

text \<open>
  Claim C8, with the last part restricted for the table variant.  A list fails to parse,
  with an input error, exactly when one of its kept tokens is no integer.  When a list
  fails to parse, each handler returns the input error; when both lists of Knapsack
  parse and their lengths differ, both Knapsack handlers return the validation error;
  an error result carries no graph.  When the lists parse (and, for Knapsack, have the
  same length), the two depth-first handlers return a graph, and the table handler
  returns a graph when no weight is negative.
\<close>

theorem boundary_errors_then_total:
  "(parse_int_list s = Inl InputError
      \<longleftrightarrow> (\<exists>t\<in>set (tokens s). py_int (strip t) = Inl InputError))
   \<and> (parse_int_list weight_str = Inl InputError \<or> parse_int_list value_str = Inl InputError \<longrightarrow>
        knapsack_app weight_str value_str W = Inl InputError
        \<and> knapsack_dp_main weight_str value_str W = Inl InputError)
   \<and> (parse_int_list nums_str = Inl InputError \<longrightarrow>
        target_sum_app nums_str target = Inl InputError)
   \<and> (parse_int_list weight_str = Inr ws \<and> parse_int_list value_str = Inr vs \<longrightarrow>
        (length ws \<noteq> length vs \<longrightarrow>
           knapsack_app weight_str value_str W = Inl ValidationError
           \<and> knapsack_dp_main weight_str value_str W = Inl ValidationError)
        \<and> (length ws = length vs \<longrightarrow>
             (\<exists>G. knapsack_app weight_str value_str W = Inr G)
             \<and> ((\<forall>x\<in>set ws. 0 \<le> x) \<longrightarrow> (\<exists>G. knapsack_dp_main weight_str value_str W = Inr G))))
   \<and> (parse_int_list nums_str = Inr nums \<longrightarrow>
        (\<exists>res. target_sum_app nums_str target = Inr (Some res)))"
proof (intro conjI impI)
  show "parse_int_list s = Inl InputError
      \<longleftrightarrow> (\<exists>t\<in>set (tokens s). py_int (strip t) = Inl InputError)"
    by (rule parse_int_list_fails_iff)
next
  assume a: "parse_int_list weight_str = Inl InputError \<or> parse_int_list value_str = Inl InputError"
  have "knapsack_app weight_str value_str W = Inl InputError
      \<and> knapsack_dp_main weight_str value_str W = Inl InputError"
  proof (cases "parse_int_list weight_str")
    case (Inl e)
    then have "e = InputError" by (rule parse_int_list_error)
    then show ?thesis using Inl by (simp add: knapsack_app_def knapsack_dp_main_def)
  next
    case (Inr ws')
    then have "parse_int_list value_str = Inl InputError" using a by simp
    then show ?thesis using Inr by (simp add: knapsack_app_def knapsack_dp_main_def)
  qed
  then show "knapsack_app weight_str value_str W = Inl InputError"
    and "knapsack_dp_main weight_str value_str W = Inl InputError" by simp_all
next
  assume "parse_int_list nums_str = Inl InputError"
  then show "target_sum_app nums_str target = Inl InputError"
    by (simp add: target_sum_app_def)
next
  assume p: "parse_int_list weight_str = Inr ws \<and> parse_int_list value_str = Inr vs"
    and l: "length ws \<noteq> length vs"
  show "knapsack_app weight_str value_str W = Inl ValidationError"
    using p l by (simp add: knapsack_app_def)
  show "knapsack_dp_main weight_str value_str W = Inl ValidationError"
    using p l by (simp add: knapsack_dp_main_def)
next
  assume p: "parse_int_list weight_str = Inr ws \<and> parse_int_list value_str = Inr vs"
    and l: "length ws = length vs"
  obtain r where "run_knapsack_dfs ws vs W = Inr r" using knapsack_app_total [OF l] by blast
  then show "\<exists>G. knapsack_app weight_str value_str W = Inr G"
    using p l by (simp add: knapsack_app_def)
next
  assume p: "parse_int_list weight_str = Inr ws \<and> parse_int_list value_str = Inr vs"
    and l: "length ws = length vs" and nn: "\<forall>x\<in>set ws. 0 \<le> x"
  have "\<exists>G. knapsack_dp_graph ws vs W = Inr G \<and> edge_labels_ok ws (nat (W + 1)) G"
    using l nn by (intro knapsack_dp_graph_ok) simp_all
  then show "\<exists>G. knapsack_dp_main weight_str value_str W = Inr G"
    using p l by (auto simp add: knapsack_dp_main_def knapsack_dp_graph_def)
next
  assume p: "parse_int_list nums_str = Inr nums"
  obtain r res where "run_target_sum_dfs nums target = Inr r"
    "map_option (\<lambda>(G, H). (G, H, ways_count r))
          (ts_create_tree_graph_from_trace (trace r) (parent_map r) (valid_leaves r)) = Some res"
    using target_sum_total [of nums target] by blast
  then show "\<exists>res. target_sum_app nums_str target = Inr (Some res)"
    using p by (auto simp add: target_sum_app_def)
qed

theorem boundary_errors_then_total_witness:
  "knapsack_app ''2,x'' ''3,4'' 5 = Inl InputError
   \<and> knapsack_dp_main ''2,x'' ''3,4'' 5 = Inl InputError
   \<and> target_sum_app ''1,y'' 2 = Inl InputError
   \<and> knapsack_app ''2,3'' ''3'' 5 = Inl ValidationError
   \<and> knapsack_dp_main ''2,3'' ''3'' 5 = Inl ValidationError
   \<and> (\<exists>G. knapsack_app ''2,3'' ''3,4'' 5 = Inr G)
   \<and> (\<exists>G. knapsack_dp_main ''2,3'' ''3,4'' 5 = Inr G)
   \<and> (\<exists>res. target_sum_app ''1,1'' 0 = Inr (Some res))"
proof -
  have p1: "parse_int_list ''2,x'' = Inl InputError" by code_simp
  have p2: "parse_int_list ''1,y'' = Inl InputError" by code_simp
  have p3: "parse_int_list ''2,3'' = Inr [2, 3]" by code_simp
  have p4: "parse_int_list ''3'' = Inr [3]" by code_simp
  have p5: "parse_int_list ''3,4'' = Inr [3, 4]" by code_simp
  have p6: "parse_int_list ''1,1'' = Inr [1, 1]" by code_simp
  have a: "knapsack_app ''2,x'' ''3,4'' 5 = Inl InputError
      \<and> knapsack_dp_main ''2,x'' ''3,4'' 5 = Inl InputError
      \<and> target_sum_app ''1,y'' 2 = Inl InputError"
    using boundary_errors_then_total [of "''''" "''2,x''" "''3,4''" 5 "''1,y''" 2 "[]" "[]" "[]"]
      p1 p2 by simp
  have b: "knapsack_app ''2,3'' ''3'' 5 = Inl ValidationError
      \<and> knapsack_dp_main ''2,3'' ''3'' 5 = Inl ValidationError"
    using boundary_errors_then_total [of "''''" "''2,3''" "''3''" 5 "''1,1''" 0 "[2, 3]" "[3]" "[1, 1]"]
      p3 p4 by simp
  have c: "(\<exists>G. knapsack_app ''2,3'' ''3,4'' 5 = Inr G)
      \<and> (\<exists>G. knapsack_dp_main ''2,3'' ''3,4'' 5 = Inr G)
      \<and> (\<exists>res. target_sum_app ''1,1'' 0 = Inr (Some res))"
    using boundary_errors_then_total [of "''''" "''2,3''" "''3,4''" 5 "''1,1''" 0 "[2, 3]" "[3, 4]" "[1, 1]"]
      p3 p5 p6 by simp
  show ?thesis using a b c by blast
qed

text \<open>
  Claim C8 as stated lets no validated input raise.  The texts \<open>-1\<close> and \<open>1\<close> parse to
  lists of the same length, and the table builder raises on them at capacity 0.
\<close>

theorem boundary_counterexample:
  "parse_int_list ''-1'' = Inr [- 1] \<and> parse_int_list ''1'' = Inr [1]
   \<and> map_sum id g_nodes (knapsack_dp_main ''-1'' ''1'' 0) = Inl IndexError"
  by code_simp

subsection \<open>Blank tokens\<close>

lemma split_on_nonempty: "split_on c s \<noteq> []"
  by (induction s) (auto split: list.splits)

lemma split_on_append: "split_on c (a @ c # b) = split_on c a @ split_on c b"
proof (induction a)
  case Nil
  then show ?case by simp
next
  case (Cons x a)
  obtain t ts where t: "split_on c a = t # ts"
    using split_on_nonempty [of c a] by (cases "split_on c a") auto
  show ?case using Cons t by simp
qed

lemma split_on_sets: "g \<in> set (split_on c s) \<Longrightarrow> set g \<subseteq> set s - {c}"
proof (induction s arbitrary: g)
  case Nil
  then show ?case by simp
next
  case (Cons x s)
  obtain t ts where t: "split_on c s = t # ts"
    using split_on_nonempty [of c s] by (cases "split_on c s") auto
  show ?case
  proof (cases "x = c")
    case True
    then show ?thesis using Cons by auto
  next
    case False
    then have "g = x # t \<or> g \<in> set ts" using Cons.prems t by simp
    moreover have "set t \<subseteq> set s - {c}" using Cons.IH [of t] t by simp
    moreover have "g \<in> set ts \<Longrightarrow> set g \<subseteq> set s - {c}" using Cons.IH [of g] t by simp
    ultimately show ?thesis using False by auto
  qed
qed

lemma strip_blank:
  assumes "\<And>ch. ch \<in> set g \<Longrightarrow> is_space ch"
  shows "strip g = []"
proof -
  have d: "dropWhile is_space g = []" using assms by (induction g) simp_all
  show ?thesis unfolding strip_def d by simp
qed

lemma tokens_append: "tokens (a @ CHR '','' # b) = tokens a @ tokens b"
  by (simp add: tokens_def split_on_append)

lemma tokens_blank:
  assumes "\<And>ch. ch \<in> set b \<Longrightarrow> ch = CHR '','' \<or> is_space ch"
  shows "tokens b = []"
proof -
  have "strip g = []" if "g \<in> set (split_on (CHR '','') b)" for g
  proof (rule strip_blank)
    fix ch assume "ch \<in> set g"
    then have "ch \<in> set b - {CHR '',''}" using split_on_sets [OF that] by blast
    then show "is_space ch" using assms by auto
  qed
  then show ?thesis by (simp add: tokens_def filter_empty_conv)
qed

lemma kn_single_root:
  "run_knapsack_dfs [] [] W =
     Inr \<lparr>trace = [node_id (kn_label 0 W 0) 1], parent_map = [],
          node_counter = [kn_label 0 W 0 \<mapsto> 1]\<rparr>"
  unfolding run_knapsack_dfs_def
  by (subst kn_dfs.simps) (simp add: visit_def Let_def dfs_init_def count0_def)

lemma ts_single_root:
  "run_target_sum_dfs [] target =
     Inr \<lparr>trace = [node_id (ts_label 0 0) 1], parent_map = [],
          node_counter = [ts_label 0 0 \<mapsto> 1],
          valid_leaves = (if target = 0 then [node_id (ts_label 0 0) 1] else []),
          ways_count = (if target = 0 then 1 else 0)\<rparr>"
  unfolding run_target_sum_dfs_def
  by (subst ts_dfs.simps) (simp add: visit_def Let_def ts_init_def count0_def ts_goal_def)

lemma graph_single_root:
  "graph_of_trace [x] [] = \<lparr>g_nodes = {x}, g_label = [x \<mapsto> display_label x], g_edges = Map.empty\<rparr>"
  by (simp add: graph_of_trace_def add_node_def DiGraph_def)

text \<open>
  Claim C10: the text \<open>1,,2\<close> parses to \<open>[1, 2]\<close>; a text of commas and whitespace
  only parses to the empty list, and such a text between two commas changes nothing
  in the parse of a longer text; on such texts the two depth-first handlers return a
  graph of one node, the root, and no edge.
\<close>

theorem blank_tokens_dropped:
  "parse_int_list ''1,,2'' = Inr [1, 2]
   \<and> ((\<forall>ch\<in>set b. ch = CHR '','' \<or> is_space ch) \<longrightarrow>
        parse_int_list b = Inr []
        \<and> parse_int_list (a @ '','' @ b @ '','' @ c) = parse_int_list (a @ '','' @ c)
        \<and> (\<exists>G H n. target_sum_app b target = Inr (Some (G, H, n))
              \<and> g_nodes G = {node_id (ts_label 0 0) 1} \<and> g_edges G = Map.empty)
        \<and> ((\<forall>ch\<in>set b'. ch = CHR '','' \<or> is_space ch) \<longrightarrow>
             (\<exists>G. knapsack_app b b' W = Inr G
                \<and> g_nodes G = {node_id (kn_label 0 W 0) 1} \<and> g_edges G = Map.empty)))"
proof (intro conjI impI)
  show "parse_int_list ''1,,2'' = Inr [1, 2]" by code_simp
next
  assume b: "\<forall>ch\<in>set b. ch = CHR '','' \<or> is_space ch"
  have tb: "tokens b = []" using b by (intro tokens_blank) auto
  show pb: "parse_int_list b = Inr []" by (simp add: parse_int_list_def tb)
  have "tokens (a @ '','' @ b @ '','' @ c) = tokens (a @ '','' @ c)"
    by (simp add: tokens_append tb)
  then show "parse_int_list (a @ '','' @ b @ '','' @ c) = parse_int_list (a @ '','' @ c)"
    by (simp add: parse_int_list_def)
  have "climb Map.empty x {} = Some {x}" for x :: string
    by (subst climb.simps) simp
  then show "\<exists>G H n. target_sum_app b target = Inr (Some (G, H, n))
      \<and> g_nodes G = {node_id (ts_label 0 0) 1} \<and> g_edges G = Map.empty"
    by (simp add: target_sum_app_def pb ts_single_root ts_create_tree_graph_from_trace_def
        graph_single_root quick_parent_def)
  assume "\<forall>ch\<in>set b'. ch = CHR '','' \<or> is_space ch"
  then have "tokens b' = []" by (intro tokens_blank) auto
  then have pb': "parse_int_list b' = Inr []" by (simp add: parse_int_list_def)
  show "\<exists>G. knapsack_app b b' W = Inr G
      \<and> g_nodes G = {node_id (kn_label 0 W 0) 1} \<and> g_edges G = Map.empty"
    by (simp add: knapsack_app_def pb pb' kn_single_root kn_create_tree_graph_from_trace_def
        graph_single_root)
qed

theorem blank_tokens_dropped_witness:
  "parse_int_list '', ,'' = Inr []
   \<and> parse_int_list (''1'' @ '','' @ '', ,'' @ '','' @ ''2'') = parse_int_list (''1'' @ '','' @ ''2'')
   \<and> (\<exists>G H n. target_sum_app '', ,'' 2 = Inr (Some (G, H, n))
         \<and> g_nodes G = {node_id (ts_label 0 0) 1} \<and> g_edges G = Map.empty)
   \<and> (\<exists>G. knapsack_app '', ,'' '' '' 5 = Inr G
         \<and> g_nodes G = {node_id (kn_label 0 5 0) 1} \<and> g_edges G = Map.empty)"
proof -
  have a: "\<forall>ch\<in>set '', ,''. ch = CHR '','' \<or> is_space ch" by (simp add: is_space_def)
  have b: "\<forall>ch\<in>set '' ''. ch = CHR '','' \<or> is_space ch" by (simp add: is_space_def)
  show ?thesis
    using blank_tokens_dropped [of "'', ,''" "''1''" "''2''" 2 "'' ''" 5] a b by blast
qed

subsection \<open>The edges of the table graph\<close>

lemma dp_run_probe_three_items:
  "ebind (knapsack_dp_run [2, 3, 4] [3, 4, 5] 5) (\<lambda>(dp, st). Inr
       (py_get2 dp 1 2, py_get2 dp 0 0,
        dpg_id_map st (0, 2), dpg_id_map st (1, 0), dpg_id_map st (1, 2),
        g_edges (dpg_graph st) (2, 6), g_edges (dpg_graph st) (2, 8)))
   = Inr (Inr 3, Inr 0, Some 2, Some 6, Some 8, None, Some ''pick item 0'')"
  by code_simp

lemma dp_run_probe_tie:
  "ebind (knapsack_dp_run [1, 1] [1, 1] 1) (\<lambda>(dp, st). Inr
       (py_get2 dp 2 1, py_get2 dp 1 1, py_get2 dp 1 0,
        dpg_id_map st (1, 1), dpg_id_map st (2, 1), g_nodes (dpg_graph st),
        map (\<lambda>v. g_edges (dpg_graph st) (3, v)) [0, 1, 2, 3, 4, 5]))
   = Inr (Inr 1, Inr 1, Inr 0, Some 3, Some 5, {0, 1, 2, 3, 4, 5},
          [None, None, None, None, None, Some ''pick item 1''])"
  by code_simp

lemma knapsack_dp_run_table:
  "knapsack_dp_run weight value W = Inr (dp, st) \<Longrightarrow> build_knapsack_dp_table weight value W = Inr dp"
  by (auto simp: knapsack_dp_run_def ebind_def split: sum.splits)

text \<open>
  Claim C1 (the pick edge of cell \<open>(i, w)\<close> ends at the node of \<open>(i+1, w - weight[i])\<close>),
  evaluated on weights \<open>[2,3,4]\<close>, values \<open>[3,4,5]\<close>, capacity 5.  At \<open>i = 0\<close>,
  \<open>w = 2\<close> the pick condition holds: \<open>w \<ge> weight[0] = 2\<close> and
  \<open>T[1][2] = 3 = T[0][0] + value[0]\<close>.  The cells \<open>(0,2)\<close>, \<open>(1,0)\<close> and \<open>(1,2)\<close>
  are the nodes 2, 6 and 8.  The graph has no edge from node 2 to node 6; the edge
  labelled \<open>pick item 0\<close> goes from node 2 to node 8, the node of \<open>(i+1, w)\<close>.
\<close>

theorem dp_pick_edge_destination:
  "dp_table_entry [2, 3, 4] [3, 4, 5] 5 1 2 = Inr 3
   \<and> dp_table_entry [2, 3, 4] [3, 4, 5] 5 0 0 = Inr 0
   \<and> dp_cell_node [2, 3, 4] [3, 4, 5] 5 0 2 = Inr (Some 2)
   \<and> dp_cell_node [2, 3, 4] [3, 4, 5] 5 1 0 = Inr (Some 6)
   \<and> dp_cell_node [2, 3, 4] [3, 4, 5] 5 1 2 = Inr (Some 8)
   \<and> dp_edge_label [2, 3, 4] [3, 4, 5] 5 2 6 = Inr None
   \<and> dp_edge_label [2, 3, 4] [3, 4, 5] 5 2 8 = Inr (Some ''pick item 0'')"
proof -
  obtain dp st where r: "knapsack_dp_run [2, 3, 4] [3, 4, 5] 5 = Inr (dp, st)"
    using dp_run_probe_three_items by (cases "knapsack_dp_run [2, 3, 4] [3, 4, 5] 5") auto
  have t: "build_knapsack_dp_table [2, 3, 4] [3, 4, 5] 5 = Inr dp"
    using r by (rule knapsack_dp_run_table)
  show ?thesis
    using dp_run_probe_three_items
    by (simp add: r t dp_table_entry_def dp_cell_node_def dp_edge_label_def)
qed

text \<open>
  Claim C2 (when the skip and the pick condition both hold, the graph has both edges),
  evaluated on weights \<open>[1,1]\<close>, values \<open>[1,1]\<close>, capacity 1.  At \<open>i = 1\<close>, \<open>w = 1\<close>
  both conditions hold: \<open>T[2][1] = 1 = T[1][1]\<close> and \<open>T[2][1] = T[1][0] + value[1]\<close>
  with \<open>w \<ge> weight[1]\<close>.  The cell \<open>(1,1)\<close> is node 3 and \<open>(2,1)\<close> is node 5.  Of
  the six nodes of the graph, node 3 has an edge to node 5 only, and its label is
  \<open>pick item 1\<close>: the second \<open>add_edge\<close> between the same two nodes replaced the
  label \<open>skip item 1\<close>.
\<close>

theorem dp_tie_single_edge:
  "dp_table_entry [1, 1] [1, 1] 1 2 1 = Inr 1
   \<and> dp_table_entry [1, 1] [1, 1] 1 1 1 = Inr 1
   \<and> dp_table_entry [1, 1] [1, 1] 1 1 0 = Inr 0
   \<and> dp_cell_node [1, 1] [1, 1] 1 1 1 = Inr (Some 3)
   \<and> dp_cell_node [1, 1] [1, 1] 1 2 1 = Inr (Some 5)
   \<and> dp_graph_nodes [1, 1] [1, 1] 1 = Inr {0, 1, 2, 3, 4, 5}
   \<and> dp_edge_label [1, 1] [1, 1] 1 3 0 = Inr None
   \<and> dp_edge_label [1, 1] [1, 1] 1 3 1 = Inr None
   \<and> dp_edge_label [1, 1] [1, 1] 1 3 2 = Inr None
   \<and> dp_edge_label [1, 1] [1, 1] 1 3 3 = Inr None
   \<and> dp_edge_label [1, 1] [1, 1] 1 3 4 = Inr None
   \<and> dp_edge_label [1, 1] [1, 1] 1 3 5 = Inr (Some ''pick item 1'')"
proof -
  obtain dp st where r: "knapsack_dp_run [1, 1] [1, 1] 1 = Inr (dp, st)"
    using dp_run_probe_tie by (cases "knapsack_dp_run [1, 1] [1, 1] 1") auto
  have t: "build_knapsack_dp_table [1, 1] [1, 1] 1 = Inr dp"
    using r by (rule knapsack_dp_run_table)
  show ?thesis
    using dp_run_probe_tie
    by (simp add: r t dp_table_entry_def dp_cell_node_def dp_edge_label_def dp_graph_nodes_def)
qed

end
